theory Spec2Isabelle
  imports Main "HOL-Library.Monad_Syntax"
begin

text \<open>
  A model of the puzzle engine of the block game: the board, the shapes and their rotation,
  placement, line clearing and score, the batch of active shapes, and the search of the AI.
  Sprites, particles and animations are left out, except that the clear animation delays
  the clearing of the blocks (see \<open>pendingClears\<close>).

  The repository holds two copies of Game.ts. The sections up to the AI turn follow the copy
  that uses GameAI, StartScreen and PauseScreen. \<open>canPlaceShape\<close>, \<open>placeShape\<close>,
  \<open>checkLines\<close>, \<open>updateScore\<close>, \<open>clearBlock\<close>, \<open>rotateShape\<close>, \<open>hasValidMoves\<close> and
  \<open>findBestMove\<close> are the same in both copies. The older copy (src/Game.ts, with the search
  inside the class) counts \<open>placedShapesCount\<close> to decide when a new batch is due, and its
  \<open>generateNewShapes\<close> replaces the batch without testing that the batch is empty; its
  commands are modelled in a section of their own, with the suffix \<open>_old\<close>.
\<close>

section \<open>Constants (constants.ts)\<close>

definition GRID_SIZE :: nat where
  "GRID_SIZE = 8"

text \<open>The palette, written in decimal: 0xff0000, 0x00ff00, 0x0000ff, 0xffff00, 0xff00ff,
  0x00ffff, 0xffa500.\<close>

definition BLOCK_COLORS :: "int list" where
  "BLOCK_COLORS = [16711680, 65280, 255, 16776960, 16711935, 65535, 16753920]"

definition SHAPES :: "bool list list list" where
  "SHAPES =
    [[[True]],
     [[True, True]],
     [[True], [True]],
     [[True], [True], [True], [True]],
     [[True, False], [True, False], [True, True]],
     [[False, True], [False, True], [True, True]],
     [[True, True], [True, True]],
     [[False, True, True], [True, True, False]],
     [[True, True, True], [False, True, False]],
     [[True, True, False], [False, True, True]]]"

section \<open>Data model (types.ts)\<close>

text \<open>
  A \<open>Block\<close> keeps its colour and its \<open>isEmpty\<close> flag; the sprite is a display handle and
  is left out. Every Block object is created once by \<open>createEmptyBoard\<close> and stays in its
  slot of \<open>gameBoard\<close>, so a Block object is identified by its coordinates (its
  \<open>position\<close> field).

  A \<open>Shape\<close> keeps its matrix, colour, width and height; the container is a display
  handle. A shape object of the batch is identified by its index in \<open>state.shapes\<close>.

  A handler that dereferences \<open>undefined\<close> throws a TypeError: the model returns \<open>None\<close>.
\<close>

record block =
  color :: int
  isEmpty :: bool

type_synonym board = "block list list"

record shape =
  blocks :: "bool list list"
  shape_color :: int
  width :: nat
  height :: nat

text \<open>\<open>gameBoard[r][c]\<close> followed by a property access: the access throws when the row or
  the block is \<open>undefined\<close>.\<close>

definition blockAt :: "board \<Rightarrow> int \<Rightarrow> int \<Rightarrow> block option" where
  "blockAt b r c =
     (if 0 \<le> r \<and> r < int (length b) \<and> 0 \<le> c \<and> c < int (length (b ! nat r))
      then Some (b ! nat r ! nat c) else None)"

text \<open>The cells visited by \<open>for row < blocks.length, for col < blocks[row].length\<close> at which
  \<open>blocks[row][col]\<close> is true, in the order of the loops.\<close>

definition shapeCells :: "bool list list \<Rightarrow> (nat \<times> nat) list" where
  "shapeCells m =
     concat (map (\<lambda>r. map (\<lambda>c. (r, c)) (filter (\<lambda>c. m ! r ! c) [0..<length (m ! r)]))
                 [0..<length m])"

section \<open>Placement validation (Game.canPlaceShape)\<close>

fun overlapFree :: "board \<Rightarrow> int \<Rightarrow> int \<Rightarrow> (nat \<times> nat) list \<Rightarrow> bool option" where
  "overlapFree b startRow startCol [] = Some True"
| "overlapFree b startRow startCol ((r, c) # rest) =
     do { blk \<leftarrow> blockAt b (startRow + int r) (startCol + int c);
          if \<not> isEmpty blk then Some False
          else overlapFree b startRow startCol rest }"

definition canPlaceShape :: "board \<Rightarrow> int \<Rightarrow> int \<Rightarrow> shape \<Rightarrow> bool option" where
  "canPlaceShape b startRow startCol s =
     (if startRow < 0 \<or> startRow + int (length (blocks s)) > int GRID_SIZE \<or> startCol < 0
      then Some False
      else case blocks s of
             [] \<Rightarrow> None
           | row0 # _ \<Rightarrow>
               if startCol + int (length row0) > int GRID_SIZE then Some False
               else overlapFree b startRow startCol (shapeCells (blocks s)))"

section \<open>Move availability (Game.hasValidMoves)\<close>

text \<open>\<open>Array.some\<close> and the loops that return at the first hit; an exception in the
  callback ends the search.\<close>

fun someM :: "('a \<Rightarrow> bool option) \<Rightarrow> 'a list \<Rightarrow> bool option" where
  "someM f [] = Some False"
| "someM f (x # xs) = do { r \<leftarrow> f x; if r then Some True else someM f xs }"

definition gridPositions :: "(nat \<times> nat) list" where
  "gridPositions =
     concat (map (\<lambda>row. map (\<lambda>col. (row, col)) [0..<GRID_SIZE]) [0..<GRID_SIZE])"

definition hasValidMoves :: "board \<Rightarrow> shape list \<Rightarrow> bool option" where
  "hasValidMoves b shs =
     (if length shs > 0
      then someM (\<lambda>s. someM (\<lambda>(row, col). canPlaceShape b (int row) (int col) s) gridPositions) shs
      else Some False)"

section \<open>Well-formedness\<close>

text \<open>The board built by \<open>createEmptyBoard\<close> is GRID_SIZE by GRID_SIZE and is never resized.
  A shape built by \<open>generateNewShapes\<close> has a non-empty rectangular matrix, with
  \<open>width = shape[0].length\<close> and \<open>height = shape.length\<close>.\<close>

definition board_ok :: "board \<Rightarrow> bool" where
  "board_ok b = (length b = GRID_SIZE \<and> list_all (\<lambda>row. length row = GRID_SIZE) b)"

definition shape_ok :: "shape \<Rightarrow> bool" where
  "shape_ok s =
     (blocks s \<noteq> [] \<and> height s = length (blocks s) \<and> 0 < width s \<and>
      list_all (\<lambda>row. length row = width s) (blocks s))"

definition emptyBlock :: block where
  "emptyBlock = \<lparr> color = 0, isEmpty = True \<rparr>"

definition createEmptyBoard :: board where
  "createEmptyBoard = map (\<lambda>row. map (\<lambda>col. emptyBlock) [0..<GRID_SIZE]) [0..<GRID_SIZE]"

section \<open>Rotation (Game.rotateShape)\<close>

text \<open>\<open>shape[row][col]\<close> for \<open>row < shape.length\<close>: a read past the end of the row gives
  \<open>undefined\<close>, which every reader of a matrix treats as false.\<close>

definition readCell :: "bool list list \<Rightarrow> nat \<Rightarrow> nat \<Rightarrow> bool" where
  "readCell m r c = (if c < length (m ! r) then m ! r ! c else False)"

definition writeCell :: "'a list list \<Rightarrow> nat \<Rightarrow> nat \<Rightarrow> 'a \<Rightarrow> 'a list list" where
  "writeCell m i j v = m[i := (m ! i)[j := v]]"

definition rotateShape :: "bool list list \<Rightarrow> bool list list option" where
  "rotateShape sh =
     (case sh of
        [] \<Rightarrow> None
      | row0 # _ \<Rightarrow>
          let rows = length sh;
              cols = length row0;
              rotated = replicate cols (replicate rows False)
          in Some (fold (\<lambda>row rot.
                      fold (\<lambda>col rot. writeCell rot col (rows - 1 - row) (readCell sh row col))
                           [0..<cols] rot)
                    [0..<rows] rotated))"

fun rotateTimes :: "nat \<Rightarrow> bool list list \<Rightarrow> bool list list option" where
  "rotateTimes 0 sh = Some sh"
| "rotateTimes (Suc n) sh = do { sh' \<leftarrow> rotateShape sh; rotateTimes n sh' }"

section \<open>Game state (Game.state, Game.gameBoard)\<close>

text \<open>
  \<open>pendingClears\<close> holds the clear animations that \<open>clearLines\<close> has started and whose
  completion callbacks have not run yet: one list of blocks per call of \<open>clearLines\<close>.
\<close>

datatype phase = START | PLAYING | PAUSED | GAME_OVER

record game_state =
  gameBoard :: board
  score :: int
  isGameOver :: bool
  shapes :: "shape list"
  previousAIState :: bool
  isAIEnabled :: bool
  currentState :: phase
  pendingClears :: "(nat \<times> nat) list list"

definition gameOver :: "game_state \<Rightarrow> game_state" where
  "gameOver st = st\<lparr> isGameOver := True, currentState := GAME_OVER \<rparr>"

definition checkGameOver :: "game_state \<Rightarrow> game_state option" where
  "checkGameOver st =
     do { v \<leftarrow> hasValidMoves (gameBoard st) (shapes st);
          Some (if \<not> v then gameOver st else st) }"

definition updateScore :: "game_state \<Rightarrow> nat \<Rightarrow> game_state" where
  "updateScore st linesCleared = st\<lparr> score := score st + int linesCleared * 100 \<rparr>"

section \<open>Line clearing (Game.checkLines, Game.clearLines, Game.clearBlock)\<close>

text \<open>The scan of one line, which stops at the first empty block.\<close>

fun lineIsFull :: "board \<Rightarrow> (nat \<times> nat) list \<Rightarrow> bool option" where
  "lineIsFull b [] = Some True"
| "lineIsFull b ((r, c) # rest) =
     do { blk \<leftarrow> blockAt b (int r) (int c);
          if isEmpty blk then Some False else lineIsFull b rest }"

fun filterM :: "('a \<Rightarrow> bool option) \<Rightarrow> 'a list \<Rightarrow> 'a list option" where
  "filterM f [] = Some []"
| "filterM f (x # xs) =
     do { k \<leftarrow> f x; ys \<leftarrow> filterM f xs; Some (if k then x # ys else ys) }"

definition rowsToRemove :: "board \<Rightarrow> nat list option" where
  "rowsToRemove b =
     filterM (\<lambda>row. lineIsFull b (map (\<lambda>col. (row, col)) [0..<GRID_SIZE])) [0..<GRID_SIZE]"

definition colsToRemove :: "board \<Rightarrow> nat list option" where
  "colsToRemove b =
     filterM (\<lambda>col. lineIsFull b (map (\<lambda>row. (row, col)) [0..<GRID_SIZE])) [0..<GRID_SIZE]"

text \<open>\<open>if (!blocksToRemove.includes(block)) blocksToRemove.push(block)\<close>\<close>

definition pushUnique :: "(nat \<times> nat) list \<Rightarrow> nat \<times> nat \<Rightarrow> (nat \<times> nat) list" where
  "pushUnique acc p = (if p \<in> set acc then acc else acc @ [p])"

definition blocksToRemove :: "nat list \<Rightarrow> nat list \<Rightarrow> (nat \<times> nat) list" where
  "blocksToRemove rows cols =
     fold (\<lambda>col acc. fold (\<lambda>row acc. pushUnique acc (row, col)) [0..<GRID_SIZE] acc) cols
       (fold (\<lambda>row acc. fold (\<lambda>col acc. pushUnique acc (row, col)) [0..<GRID_SIZE] acc) rows [])"

text \<open>The older copy of \<open>clearLines\<close> (src/Game.ts without GameAI) pushes the blocks of the
  rows without the \<open>includes\<close> test.\<close>

definition blocksToRemove_rows_unchecked :: "nat list \<Rightarrow> nat list \<Rightarrow> (nat \<times> nat) list" where
  "blocksToRemove_rows_unchecked rows cols =
     fold (\<lambda>col acc. fold (\<lambda>row acc. pushUnique acc (row, col)) [0..<GRID_SIZE] acc) cols
       (fold (\<lambda>row acc. fold (\<lambda>col acc. acc @ [(row, col)]) [0..<GRID_SIZE] acc) rows [])"

definition clearLines :: "game_state \<Rightarrow> nat list \<Rightarrow> nat list \<Rightarrow> game_state" where
  "clearLines st rows cols =
     st\<lparr> pendingClears := pendingClears st @ [blocksToRemove rows cols] \<rparr>"

definition checkLines :: "game_state \<Rightarrow> game_state option" where
  "checkLines st =
     do { rows \<leftarrow> rowsToRemove (gameBoard st);
          cols \<leftarrow> colsToRemove (gameBoard st);
          let st1 = (if length rows > 0 \<or> length cols > 0
                     then updateScore (clearLines st rows cols) (length rows + length cols)
                     else st);
          if length (shapes st1) = 1
          then do { v \<leftarrow> hasValidMoves (gameBoard st1) (shapes st1);
                    Some (if \<not> v then gameOver st1 else st1) }
          else Some st1 }"

definition clearBlock :: "board \<Rightarrow> nat \<times> nat \<Rightarrow> board" where
  "clearBlock b p =
     (case p of (r, c) \<Rightarrow> writeCell b r c ((b ! r ! c)\<lparr> isEmpty := True, color := 0 \<rparr>))"

definition applyClear :: "board \<Rightarrow> (nat \<times> nat) list \<Rightarrow> board" where
  "applyClear b blks = fold (\<lambda>p b'. clearBlock b' p) blks b"

text \<open>The completion of the oldest pending clear animation: every block of it is cleared,
  then \<open>checkGameOver\<close> runs.\<close>

definition completeClear :: "game_state \<Rightarrow> game_state option" where
  "completeClear st =
     (case pendingClears st of
        [] \<Rightarrow> Some st
      | blks # rest \<Rightarrow>
          checkGameOver (st\<lparr> gameBoard := applyClear (gameBoard st) blks,
                              pendingClears := rest \<rparr>))"

section \<open>Placement (Game.placeShape)\<close>

fun fillCells :: "board \<Rightarrow> int \<Rightarrow> int \<Rightarrow> int \<Rightarrow> (nat \<times> nat) list \<Rightarrow> board option" where
  "fillCells b startRow startCol col [] = Some b"
| "fillCells b startRow startCol col ((r, c) # rest) =
     do { blk \<leftarrow> blockAt b (startRow + int r) (startCol + int c);
          fillCells (writeCell b (nat (startRow + int r)) (nat (startCol + int c))
                       (blk\<lparr> isEmpty := False, color := col \<rparr>))
                    startRow startCol col rest }"

definition placeShape :: "game_state \<Rightarrow> int \<Rightarrow> int \<Rightarrow> shape \<Rightarrow> game_state option" where
  "placeShape st startRow startCol s =
     do { b' \<leftarrow> fillCells (gameBoard st) startRow startCol (shape_color s)
                   (shapeCells (blocks s));
          checkLines (st\<lparr> gameBoard := b' \<rparr>) }"

text \<open>The number of blocks of the board that are not empty, and the number of true cells of
  a matrix.\<close>

definition filledCount :: "board \<Rightarrow> nat" where
  "filledCount b = sum_list (map (\<lambda>row. length (filter (\<lambda>blk. \<not> isEmpty blk) row)) b)"

definition trueCount :: "bool list list \<Rightarrow> nat" where
  "trueCount m = sum_list (map (\<lambda>row. length (filter (\<lambda>x. x) row)) m)"

section \<open>Batch generation (Game.generateNewShapes)\<close>

text \<open>
  The nine calls of \<open>Math.random\<close> are an input: \<open>draws i\<close> gives, for the shape number
  \<open>i\<close>, three naturals from which the shape index, the colour index and the number of
  rotations are taken modulo the size of their range.
\<close>

definition makeShape :: "nat \<times> nat \<times> nat \<Rightarrow> shape option" where
  "makeShape d =
     (case d of (a, c, k) \<Rightarrow>
        do { m \<leftarrow> rotateTimes (k mod 4) (SHAPES ! (a mod length SHAPES));
             case m of
               [] \<Rightarrow> None
             | row0 # _ \<Rightarrow>
                 Some \<lparr> blocks = m,
                        shape_color = BLOCK_COLORS ! (c mod length BLOCK_COLORS),
                        width = length row0,
                        height = length m \<rparr> })"

definition generateNewShapes :: "(nat \<Rightarrow> nat \<times> nat \<times> nat) \<Rightarrow> game_state \<Rightarrow> game_state option" where
  "generateNewShapes draws st =
     (if isGameOver st then Some st
      else if length (shapes st) > 0 then Some st
      else do { new \<leftarrow> those (map (\<lambda>i. makeShape (draws i)) [0..<3]);
                let st1 = st\<lparr> shapes := shapes st @ new \<rparr>;
                v \<leftarrow> hasValidMoves (gameBoard st1) (shapes st1);
                Some (if \<not> v then gameOver st1 else st1) })"

section \<open>Commands (Game.startGame, Game.resetGame, Game.onDragStart, Game.onDragEnd)\<close>

text \<open>\<open>startGame\<close> replaces the board. The blocks of a clear that is still pending belong
  to the board that is replaced: its completion clears no block of the new board, and still
  runs \<open>checkGameOver\<close>.\<close>

definition startGame :: "(nat \<Rightarrow> nat \<times> nat \<times> nat) \<Rightarrow> game_state \<Rightarrow> game_state option" where
  "startGame draws st =
     generateNewShapes draws
       (st\<lparr> currentState := PLAYING, gameBoard := createEmptyBoard,
           pendingClears := map (\<lambda>blks. []) (pendingClears st) \<rparr>)"

definition resetGame :: "game_state \<Rightarrow> game_state" where
  "resetGame st =
     st\<lparr> score := 0, isGameOver := False, shapes := [], previousAIState := False,
         isAIEnabled := False, currentState := START \<rparr>"

definition removeAt :: "nat \<Rightarrow> 'a list \<Rightarrow> 'a list" where
  "removeAt i xs = take i xs @ drop (Suc i) xs"

text \<open>
  A drag of the shape number \<open>i\<close> of the batch that ends over the grid position
  \<open>(row, col)\<close>. \<open>onDragStart\<close> starts no drag when the shape is not in the batch or the
  game is over.
\<close>

definition onDragEnd ::
  "(nat \<Rightarrow> nat \<times> nat \<times> nat) \<Rightarrow> game_state \<Rightarrow> nat \<Rightarrow> int \<Rightarrow> int \<Rightarrow> game_state option" where
  "onDragEnd draws st i row col =
     (if i \<ge> length (shapes st) \<or> isGameOver st then Some st
      else do { ok \<leftarrow> canPlaceShape (gameBoard st) row col (shapes st ! i);
                if ok
                then do { st1 \<leftarrow> placeShape st row col (shapes st ! i);
                          let st2 = st1\<lparr> shapes := removeAt i (shapes st1) \<rparr>;
                          st3 \<leftarrow> checkLines st2;
                          if length (shapes st3) = 0 then generateNewShapes draws st3
                          else Some st3 }
                else Some st })"

section \<open>Heuristic search (GameAI.findBestMove, GameAI.simulatePlacement)\<close>

text \<open>A score is a number or \<open>-Infinity\<close>; \<open>gt\<close> is the comparison \<open>>\<close>.\<close>

datatype jsnum = NegInfinity | Num int

fun gt :: "jsnum \<Rightarrow> jsnum \<Rightarrow> bool" where
  "gt (Num a) (Num b) = (a > b)"
| "gt (Num a) NegInfinity = True"
| "gt NegInfinity y = False"

text \<open>The copy of the board as booleans, then the writes \<open>board[row + r][col + c] = true\<close>.
  A write past the end of a row makes the row longer in the source; no later read looks
  there, and the model drops the write.\<close>

definition filledGrid :: "board \<Rightarrow> bool list list option" where
  "filledGrid b =
     those (map (\<lambda>r. those (map (\<lambda>c. map_option (\<lambda>blk. \<not> isEmpty blk) (blockAt b (int r) (int c)))
                                   [0..<GRID_SIZE]))
                [0..<GRID_SIZE])"

fun markCells :: "bool list list \<Rightarrow> int \<Rightarrow> int \<Rightarrow> (nat \<times> nat) list \<Rightarrow> bool list list option" where
  "markCells g row col [] = Some g"
| "markCells g row col ((r, c) # rest) =
     (if 0 \<le> row + int r \<and> row + int r < int (length g)
      then markCells (if 0 \<le> col + int c
                      then writeCell g (nat (row + int r)) (nat (col + int c)) True else g)
                     row col rest
      else None)"

definition simulatePlacement :: "board \<Rightarrow> int \<Rightarrow> int \<Rightarrow> shape \<Rightarrow> bool list list option" where
  "simulatePlacement b row col s =
     do { g \<leftarrow> filledGrid b; markCells g row col (shapeCells (blocks s)) }"

text \<open>One pass over a line: the number of filled cells, the number of gaps, and
  \<open>lastWasEmpty\<close>.\<close>

fun scanLine :: "bool list \<Rightarrow> nat \<times> nat \<times> bool \<Rightarrow> nat \<times> nat \<times> bool" where
  "scanLine [] acc = acc"
| "scanLine (x # xs) (lineBlocks, lineGaps, lastWasEmpty) =
     (if \<not> x
      then scanLine xs (lineBlocks,
                        (if \<not> lastWasEmpty \<and> lineBlocks > 0 then lineGaps + 1 else lineGaps),
                        True)
      else scanLine xs (lineBlocks + 1, lineGaps, False))"

definition gridLines :: "bool list list \<Rightarrow> bool list list" where
  "gridLines g =
     map (\<lambda>r. map (\<lambda>c. g ! r ! c) [0..<GRID_SIZE]) [0..<GRID_SIZE] @
     map (\<lambda>c. map (\<lambda>r. g ! r ! c) [0..<GRID_SIZE]) [0..<GRID_SIZE]"

text \<open>\<open>wouldClearLines\<close> and \<open>wouldCreateGaps\<close>, over the rows and then the columns.\<close>

definition lineTotals :: "bool list list \<Rightarrow> nat \<times> nat" where
  "lineTotals g =
     fold (\<lambda>line (wouldClearLines, wouldCreateGaps).
             case scanLine line (0, 0, False) of
               (lineBlocks, lineGaps, _) \<Rightarrow>
                 ((if lineBlocks = GRID_SIZE then wouldClearLines + 1 else wouldClearLines),
                  wouldCreateGaps + lineGaps))
          (gridLines g) (0, 0)"

definition directions :: "(int \<times> int) list" where
  "directions = [(-1, 0), (1, 0), (0, -1), (0, 1)]"

definition neighbours :: "int \<Rightarrow> int \<Rightarrow> (nat \<times> nat) list \<Rightarrow> (int \<times> int) list" where
  "neighbours row col cells =
     concat (map (\<lambda>(r, c). map (\<lambda>(dr, dc). (row + int r + dr, col + int c + dc)) directions)
                 cells)"

text \<open>\<open>touchingBlocks\<close> and \<open>touchingEdges\<close>.\<close>

fun touching :: "board \<Rightarrow> (int \<times> int) list \<Rightarrow> nat \<times> nat \<Rightarrow> (nat \<times> nat) option" where
  "touching b [] acc = Some acc"
| "touching b ((newRow, newCol) # rest) (touchingBlocks, touchingEdges) =
     (if newRow \<ge> 0 \<and> newRow < int GRID_SIZE \<and> newCol \<ge> 0 \<and> newCol < int GRID_SIZE
      then do { blk \<leftarrow> blockAt b newRow newCol;
                touching b rest
                  ((if \<not> isEmpty blk then touchingBlocks + 1 else touchingBlocks),
                   touchingEdges) }
      else touching b rest (touchingBlocks, touchingEdges + 1))"

definition moveScore :: "board \<Rightarrow> shape \<Rightarrow> nat \<Rightarrow> nat \<Rightarrow> int option" where
  "moveScore b s row col =
     do { g \<leftarrow> simulatePlacement b (int row) (int col) s;
          case lineTotals g of
            (wouldClearLines, wouldCreateGaps) \<Rightarrow>
              do { t \<leftarrow> touching b (neighbours (int row) (int col) (shapeCells (blocks s))) (0, 0);
                   case t of
                     (touchingBlocks, touchingEdges) \<Rightarrow>
                       Some (int wouldClearLines * 1000 - int wouldCreateGaps * 50
                             + int touchingBlocks * 100 - int touchingEdges * 30
                             + (int GRID_SIZE - int row) * 20
                             + (if wouldClearLines > 0 then 2000 else 0)) } }"

record move =
  move_row :: int
  move_col :: int
  move_score :: jsnum

text \<open>The loop of \<open>findBestMove\<close> over the positions; the accumulator is
  \<open>(bestScore, bestRow, bestCol, foundValidMove)\<close>.\<close>

fun scanMoves ::
  "board \<Rightarrow> shape \<Rightarrow> (nat \<times> nat) list \<Rightarrow> jsnum \<times> int \<times> int \<times> bool
   \<Rightarrow> (jsnum \<times> int \<times> int \<times> bool) option" where
  "scanMoves b s [] acc = Some acc"
| "scanMoves b s ((row, col) # rest) (bestScore, bestRow, bestCol, foundValidMove) =
     do { ok \<leftarrow> canPlaceShape b (int row) (int col) s;
          if ok
          then do { sc \<leftarrow> moveScore b s row col;
                    if gt (Num sc) bestScore
                    then scanMoves b s rest (Num sc, int row, int col, True)
                    else scanMoves b s rest (bestScore, bestRow, bestCol, True) }
          else scanMoves b s rest (bestScore, bestRow, bestCol, foundValidMove) }"

definition findBestMove :: "board \<Rightarrow> shape \<Rightarrow> move option" where
  "findBestMove b s =
     do { r \<leftarrow> scanMoves b s gridPositions (NegInfinity, 0, 0, False);
          case r of
            (bestScore, bestRow, bestCol, foundValidMove) \<Rightarrow>
              Some (if \<not> foundValidMove
                    then \<lparr> move_row = -1, move_col = -1, move_score = NegInfinity \<rparr>
                    else \<lparr> move_row = bestRow, move_col = bestCol, move_score = bestScore \<rparr>) }"

section \<open>AI turn (GameAI.executeMove, Game.runAI)\<close>

text \<open>The loop of \<open>executeMove\<close> over the batch; the accumulator is
  \<open>(bestShape, bestMove)\<close>, the shape given by its index in the batch.\<close>

fun pickShape ::
  "board \<Rightarrow> (nat \<times> shape) list \<Rightarrow> nat option \<times> move \<Rightarrow> (nat option \<times> move) option" where
  "pickShape b [] acc = Some acc"
| "pickShape b ((i, s) # rest) (bestShape, bestMove) =
     do { mv \<leftarrow> findBestMove b s;
          if gt (move_score mv) (move_score bestMove)
          then pickShape b rest (Some i, mv)
          else pickShape b rest (bestShape, bestMove) }"

text \<open>The search of \<open>executeMove\<close>: \<open>Some (i, move)\<close> when
  \<open>bestShape && bestMove.score > -Infinity\<close>, and \<open>None\<close> when it returns false.\<close>

definition selectMove :: "board \<Rightarrow> shape list \<Rightarrow> (nat \<times> move) option option" where
  "selectMove b shs =
     do { r \<leftarrow> pickShape b (enumerate 0 shs)
                 (None, \<lparr> move_row = -1, move_col = -1, move_score = NegInfinity \<rparr>);
          case r of
            (bestShape, bestMove) \<Rightarrow>
              Some (case bestShape of
                      None \<Rightarrow> None
                    | Some i \<Rightarrow>
                        if gt (move_score bestMove) NegInfinity then Some (i, bestMove)
                        else None) }"

text \<open>The callback that \<open>runAI\<close> gives to \<open>executeMove\<close>.\<close>

definition onPlaceShape ::
  "(nat \<Rightarrow> nat \<times> nat \<times> nat) \<Rightarrow> game_state \<Rightarrow> int \<Rightarrow> int \<Rightarrow> nat \<Rightarrow> game_state option" where
  "onPlaceShape draws st row col i =
     do { st1 \<leftarrow> placeShape st row col (shapes st ! i);
          st2 \<leftarrow> checkLines st1;
          let st3 = (if i < length (shapes st2)
                     then st2\<lparr> shapes := removeAt i (shapes st2) \<rparr> else st2);
          if length (shapes st3) = 0 then generateNewShapes draws st3 else Some st3 }"

text \<open>One turn of \<open>runAI\<close>, with no other command between the search and the placement.\<close>

definition runAI :: "(nat \<Rightarrow> nat \<times> nat \<times> nat) \<Rightarrow> game_state \<Rightarrow> game_state option" where
  "runAI draws st =
     (if \<not> isAIEnabled st \<or> isGameOver st \<or> currentState st \<noteq> PLAYING then Some st
      else do { sel \<leftarrow> selectMove (gameBoard st) (shapes st);
                case sel of
                  Some (i, mv) \<Rightarrow> onPlaceShape draws st (move_row mv) (move_col mv) i
                | None \<Rightarrow> generateNewShapes draws st })"

section \<open>The older copy of Game.ts (src/Game.ts)\<close>

text \<open>
  The state of the older copy has \<open>placedShapesCount\<close> and neither \<open>previousAIState\<close> nor
  \<open>currentState\<close>: no function of this section reads or writes these two fields.
  \<open>gameOver\<close> sets \<open>isGameOver\<close> only, \<open>clearLines\<close> pushes the blocks of the rows without the
  \<open>includes\<close> test, and \<open>placeShape\<close>, \<open>checkLines\<close> and \<open>updateScore\<close> read as in the other
  copy.
\<close>

record old_state = game_state +
  placedShapesCount :: nat

definition gameOver_old :: "old_state \<Rightarrow> old_state" where
  "gameOver_old st = st\<lparr> isGameOver := True \<rparr>"

definition updateScore_old :: "old_state \<Rightarrow> nat \<Rightarrow> old_state" where
  "updateScore_old st linesCleared = st\<lparr> score := score st + int linesCleared * 100 \<rparr>"

definition clearLines_old :: "old_state \<Rightarrow> nat list \<Rightarrow> nat list \<Rightarrow> old_state" where
  "clearLines_old st rows cols =
     st\<lparr> pendingClears := pendingClears st @ [blocksToRemove_rows_unchecked rows cols] \<rparr>"

definition checkLines_old :: "old_state \<Rightarrow> old_state option" where
  "checkLines_old st =
     do { rows \<leftarrow> rowsToRemove (gameBoard st);
          cols \<leftarrow> colsToRemove (gameBoard st);
          let st1 = (if length rows > 0 \<or> length cols > 0
                     then updateScore_old (clearLines_old st rows cols) (length rows + length cols)
                     else st);
          if length (shapes st1) = 1
          then do { v \<leftarrow> hasValidMoves (gameBoard st1) (shapes st1);
                    Some (if \<not> v then gameOver_old st1 else st1) }
          else Some st1 }"

definition placeShape_old :: "old_state \<Rightarrow> int \<Rightarrow> int \<Rightarrow> shape \<Rightarrow> old_state option" where
  "placeShape_old st startRow startCol s =
     do { b' \<leftarrow> fillCells (gameBoard st) startRow startCol (shape_color s)
                   (shapeCells (blocks s));
          checkLines_old (st\<lparr> gameBoard := b' \<rparr>) }"

text \<open>\<open>generateNewShapes\<close> of the older copy: after the test of \<open>isGameOver\<close> it empties the
  batch and resets the counter, whatever the batch holds, and pushes three shapes.\<close>

definition generateNewShapes_old ::
  "(nat \<Rightarrow> nat \<times> nat \<times> nat) \<Rightarrow> old_state \<Rightarrow> old_state option" where
  "generateNewShapes_old draws st =
     (if isGameOver st then Some st
      else do { new \<leftarrow> those (map (\<lambda>i. makeShape (draws i)) [0..<3]);
                let st1 = st\<lparr> shapes := [] @ new, placedShapesCount := 0 \<rparr>;
                v \<leftarrow> hasValidMoves (gameBoard st1) (shapes st1);
                Some (if \<not> v then gameOver_old st1 else st1) })"

definition onDragEnd_old ::
  "(nat \<Rightarrow> nat \<times> nat \<times> nat) \<Rightarrow> old_state \<Rightarrow> nat \<Rightarrow> int \<Rightarrow> int \<Rightarrow> old_state option" where
  "onDragEnd_old draws st i row col =
     (if i \<ge> length (shapes st) \<or> isGameOver st then Some st
      else do { ok \<leftarrow> canPlaceShape (gameBoard st) row col (shapes st ! i);
                if ok
                then do { st1 \<leftarrow> placeShape_old st row col (shapes st ! i);
                          let st2 = st1\<lparr> shapes := removeAt i (shapes st1) \<rparr>;
                          st3 \<leftarrow> checkLines_old st2;
                          let st4 = st3\<lparr> placedShapesCount := placedShapesCount st3 + 1 \<rparr>;
                          if placedShapesCount st4 \<ge> 3 then generateNewShapes_old draws st4
                          else Some st4 }
                else Some st })"

text \<open>One turn of \<open>runAI\<close> of the older copy, up to the point where it calls itself again
  for the next turn. Its loop over the batch is the loop of \<open>executeMove\<close>.\<close>

definition runAI_old :: "(nat \<Rightarrow> nat \<times> nat \<times> nat) \<Rightarrow> old_state \<Rightarrow> old_state option" where
  "runAI_old draws st =
     (if \<not> isAIEnabled st \<or> isGameOver st then Some st
      else do { sel \<leftarrow> selectMove (gameBoard st) (shapes st);
                case sel of
                  Some (i, mv) \<Rightarrow>
                    do { st1 \<leftarrow> placeShape_old st (move_row mv) (move_col mv) (shapes st ! i);
                         st2 \<leftarrow> checkLines_old st1;
                         let st3 = st2\<lparr> placedShapesCount := placedShapesCount st2 + 1 \<rparr>;
                         let st4 = (if i < length (shapes st3)
                                    then st3\<lparr> shapes := removeAt i (shapes st3) \<rparr> else st3);
                         if placedShapesCount st4 \<ge> 3 then generateNewShapes_old draws st4
                         else Some st4 }
                | None \<Rightarrow> generateNewShapes_old draws st })"

section \<open>Well-formed states and example states\<close>

definition state_ok :: "game_state \<Rightarrow> bool" where
  "state_ok st = (board_ok (gameBoard st) \<and> list_all shape_ok (shapes st))"

text \<open>A board drawn as text (\<open>#\<close> is a blue block), and a state in play with a given board
  and batch.\<close>

definition boardOf :: "string list \<Rightarrow> board" where
  "boardOf pic =
     map (map (\<lambda>ch. if ch = CHR ''#'' then \<lparr> color = 255, isEmpty = False \<rparr> else emptyBlock)) pic"

definition playing :: "board \<Rightarrow> shape list \<Rightarrow> game_state" where
  "playing b shs =
     \<lparr> gameBoard = b, score = 0, isGameOver = False, shapes = shs, previousAIState = False,
       isAIEnabled = False, currentState = PLAYING, pendingClears = [] \<rparr>"

definition unitShape :: shape where
  "unitShape = \<lparr> blocks = [[True]], shape_color = 65280, width = 1, height = 1 \<rparr>"

definition crossBoard :: board where
  "crossBoard = boardOf
     [''.......#'',
      ''.......#'',
      ''.......#'',
      ''########'',
      ''.......#'',
      ''.......#'',
      ''.......#'',
      ''.......#'']"

definition dominoShape :: shape where
  "dominoShape = \<lparr> blocks = [[True, True]], shape_color = 255, width = 2, height = 1 \<rparr>"

text \<open>A matrix with \<open>n\<close> rows of length \<open>k\<close>.\<close>

definition dims :: "'a list list \<Rightarrow> nat \<Rightarrow> nat \<Rightarrow> bool" where
  "dims m n k = (length m = n \<and> list_all (\<lambda>row. length row = k) m)"

definition shapeL :: "bool list list" where
  "shapeL = [[True, False], [True, False], [True, True]]"

section \<open>Notions used to state the properties\<close>

text \<open>The cell invariant: a block is empty iff its colour is the sentinel 0. \<open>colour_inv\<close>
  adds that the shapes of the batch carry colours of the palette, which is what
  \<open>generateNewShapes\<close> gives them.\<close>

definition cell_ok :: "block \<Rightarrow> bool" where
  "cell_ok blk = (isEmpty blk \<longleftrightarrow> color blk = 0)"

definition cell_inv :: "board \<Rightarrow> bool" where
  "cell_inv b = list_all (list_all cell_ok) b"

definition colour_inv :: "game_state \<Rightarrow> bool" where
  "colour_inv st =
     (cell_inv (gameBoard st) \<and> list_all (\<lambda>s. shape_color s \<in> set BLOCK_COLORS) (shapes st))"

text \<open>The candidates of the search in scan order: the shapes in batch order, for each
  shape the rows from 0, for each row the columns from 0, kept when \<open>canPlaceShape\<close> is
  true; and the heuristic score of a candidate.\<close>

definition validAt :: "board \<Rightarrow> shape \<Rightarrow> nat \<times> nat \<Rightarrow> bool" where
  "validAt b s p = (canPlaceShape b (int (fst p)) (int (snd p)) s = Some True)"

definition scoreAt :: "board \<Rightarrow> shape \<Rightarrow> nat \<times> nat \<Rightarrow> int" where
  "scoreAt b s p = the (moveScore b s (fst p) (snd p))"

definition candsOf :: "board \<Rightarrow> shape list \<Rightarrow> nat list \<Rightarrow> (nat \<times> nat \<times> nat) list" where
  "candsOf b shs js =
     concat (map (\<lambda>i. map (\<lambda>p. (i, p)) (filter (validAt b (shs ! i)) gridPositions)) js)"

definition candidates :: "board \<Rightarrow> shape list \<Rightarrow> (nat \<times> nat \<times> nat) list" where
  "candidates b shs = candsOf b shs [0..<length shs]"

definition candScore :: "board \<Rightarrow> shape list \<Rightarrow> nat \<times> nat \<times> nat \<Rightarrow> int" where
  "candScore b shs q = (case q of (i, p) \<Rightarrow> scoreAt b (shs ! i) p)"

definition bestOf :: "nat \<times> nat \<Rightarrow> int \<Rightarrow> move" where
  "bestOf p sc = \<lparr> move_row = int (fst p), move_col = int (snd p), move_score = Num sc \<rparr>"

definition noMove :: move where
  "noMove = \<lparr> move_row = -1, move_col = -1, move_score = NegInfinity \<rparr>"

text \<open>More example data: the state made by the constructor, a fixed sequence of random
  draws, the vertical bar, and a board on which no vertical bar fits although no line is
  full.\<close>

definition barShape :: shape where
  "barShape = \<lparr> blocks = [[True], [True], [True], [True]], shape_color = 255,
                width = 1, height = 4 \<rparr>"

definition stuckBoard :: board where
  "stuckBoard = boardOf
     [''........'',
      ''.#######'',
      ''........'',
      ''#.######'',
      ''........'',
      ''##.#####'',
      ''........'',
      ''###.####'']"

definition preStuckBoard :: board where
  "preStuckBoard = boardOf
     [''........'',
      ''.#######'',
      ''........'',
      ''#.######'',
      ''........'',
      ''##.#####'',
      ''........'',
      ''###.###.'']"

definition noDraws :: "nat \<Rightarrow> nat \<times> nat \<times> nat" where
  "noDraws i = (0, 0, 0)"

definition initialState :: game_state where
  "initialState =
     \<lparr> gameBoard = [], score = 0, isGameOver = False, shapes = [], previousAIState = False,
       isAIEnabled = False, currentState = START, pendingClears = [] \<rparr>"

definition rowBoard :: board where
  "rowBoard = boardOf
     [''........'',
      ''........'',
      ''........'',
      ''#######.'',
      ''........'',
      ''........'',
      ''........'',
      ''........'']"

text \<open>A state of the older copy with a given board, batch and counter, the shape that the
  draws \<open>noDraws\<close> generate, and a board on which the block at (3, 7) completes row 3 and
  column 7.\<close>

definition oldPlaying :: "board \<Rightarrow> shape list \<Rightarrow> nat \<Rightarrow> old_state" where
  "oldPlaying b shs n =
     \<lparr> gameBoard = b, score = 0, isGameOver = False, shapes = shs, previousAIState = False,
       isAIEnabled = False, currentState = PLAYING, pendingClears = [],
       placedShapesCount = n \<rparr>"


definition crossGapBoard :: board where
  "crossGapBoard = boardOf
     [''.......#'',
      ''.......#'',
      ''.......#'',
      ''#######.'',
      ''.......#'',
      ''.......#'',
      ''.......#'',
      ''.......#'']"

section \<open>Lemmas on placement validation\<close>

lemma board_ok_nth:
  "board_ok b \<Longrightarrow> r < GRID_SIZE \<Longrightarrow> length (b ! r) = GRID_SIZE"
  by (simp add: board_ok_def list_all_length)

lemma blockAt_in_range:
  "board_ok b \<Longrightarrow> 0 \<le> r \<Longrightarrow> r < int GRID_SIZE \<Longrightarrow> 0 \<le> c \<Longrightarrow> c < int GRID_SIZE \<Longrightarrow>
   blockAt b r c = Some (b ! nat r ! nat c)"
  using board_ok_nth [of b "nat r"] by (simp add: blockAt_def board_ok_def)

lemma set_shapeCells:
  "set (shapeCells m) = {(r, c). r < length m \<and> c < length (m ! r) \<and> m ! r ! c}"
  by (auto simp: shapeCells_def)

lemma overlapFree_in_range:
  "board_ok b \<Longrightarrow> 0 \<le> startRow \<Longrightarrow> 0 \<le> startCol \<Longrightarrow>
   \<forall>(r, c) \<in> set cells. startRow + int r < int GRID_SIZE \<and> startCol + int c < int GRID_SIZE \<Longrightarrow>
   overlapFree b startRow startCol cells =
     Some (\<forall>(r, c) \<in> set cells. isEmpty (b ! nat (startRow + int r) ! nat (startCol + int c)))"
proof (induction cells)
  case Nil
  then show ?case by simp
next
  case (Cons p cells)
  obtain r c where p: "p = (r, c)" by (cases p)
  from Cons.prems p have rng: "startRow + int r < int GRID_SIZE" "startCol + int c < int GRID_SIZE"
    by auto
  have at: "blockAt b (startRow + int r) (startCol + int c)
              = Some (b ! nat (startRow + int r) ! nat (startCol + int c))"
    using Cons.prems(1-3) rng by (intro blockAt_in_range) auto
  have ih: "overlapFree b startRow startCol cells =
     Some (\<forall>(r, c) \<in> set cells. isEmpty (b ! nat (startRow + int r) ! nat (startCol + int c)))"
    using Cons by auto
  show ?case by (simp add: p at ih)
qed

lemma board_ok_createEmptyBoard: "board_ok createEmptyBoard"
  by (simp add: board_ok_def createEmptyBoard_def list_all_iff)

lemma createEmptyBoard_nth:
  "r < GRID_SIZE \<Longrightarrow> c < GRID_SIZE \<Longrightarrow> createEmptyBoard ! r ! c = emptyBlock"
  by (simp add: createEmptyBoard_def)

lemma shape_ok_row_length:
  "shape_ok s \<Longrightarrow> r < length (blocks s) \<Longrightarrow> length (blocks s ! r) = width s"
  by (simp add: shape_ok_def list_all_length)

lemma canPlaceShape_char:
  assumes "board_ok b" and "shape_ok s"
  shows "canPlaceShape b row col s =
           Some (\<not> (row < 0 \<or> col < 0 \<or> row + int (height s) > int GRID_SIZE
                      \<or> col + int (width s) > int GRID_SIZE) \<and>
                 \<not> (\<exists>r c. r < height s \<and> c < width s \<and> blocks s ! r ! c \<and>
                          \<not> isEmpty (b ! nat (row + int r) ! nat (col + int c))))"
proof (cases "row < 0 \<or> col < 0 \<or> row + int (height s) > int GRID_SIZE
                \<or> col + int (width s) > int GRID_SIZE")
  case True
  obtain row0 rest where m: "blocks s = row0 # rest"
    using assms(2) by (cases "blocks s") (auto simp: shape_ok_def)
  have w: "length row0 = width s"
    using shape_ok_row_length [OF assms(2), of 0] m by simp
  have h: "height s = length (blocks s)" using assms(2) by (simp add: shape_ok_def)
  from True show ?thesis
    unfolding canPlaceShape_def using m w h by auto
next
  case False
  obtain row0 rest where m: "blocks s = row0 # rest"
    using assms(2) by (cases "blocks s") (auto simp: shape_ok_def)
  have w: "length row0 = width s"
    using shape_ok_row_length [OF assms(2), of 0] m by simp
  have h: "height s = length (blocks s)" using assms(2) by (simp add: shape_ok_def)
  have rng: "\<forall>(r, c) \<in> set (shapeCells (blocks s)).
               row + int r < int GRID_SIZE \<and> col + int c < int GRID_SIZE"
    using False h shape_ok_row_length [OF assms(2)] by (auto simp: set_shapeCells)
  have "canPlaceShape b row col s = overlapFree b row col (shapeCells (blocks s))"
    unfolding canPlaceShape_def using False m w h by auto
  also have "\<dots> = Some (\<forall>(r, c) \<in> set (shapeCells (blocks s)).
                        isEmpty (b ! nat (row + int r) ! nat (col + int c)))"
    using False rng by (intro overlapFree_in_range [OF assms(1)]) auto
  also have "(\<forall>(r, c) \<in> set (shapeCells (blocks s)).
                 isEmpty (b ! nat (row + int r) ! nat (col + int c)))
             = (\<not> (\<exists>r c. r < height s \<and> c < width s \<and> blocks s ! r ! c \<and>
                          \<not> isEmpty (b ! nat (row + int r) ! nat (col + int c))))"
    using h shape_ok_row_length [OF assms(2)] by (auto simp: set_shapeCells)
  finally show ?thesis using False by simp
qed

text \<open>
  C2. On the GRID_SIZE by GRID_SIZE board and for a shape with a rectangular matrix,
  \<open>canPlaceShape\<close> returns false when the position is out of bounds (row < 0, col < 0,
  row + height > N or col + width > N), false when a true cell of the matrix lies on a
  board cell that is not empty, and true otherwise.
\<close>

theorem canPlaceShape_bounds_overlap:
  assumes "board_ok b" and "shape_ok s"
  shows "canPlaceShape b row col s =
           Some (\<not> (row < 0 \<or> col < 0 \<or> row + int (height s) > int GRID_SIZE
                      \<or> col + int (width s) > int GRID_SIZE) \<and>
                 \<not> (\<exists>r c. r < height s \<and> c < width s \<and> blocks s ! r ! c \<and>
                          \<not> isEmpty (b ! nat (row + int r) ! nat (col + int c))))"
  using assms by (rule canPlaceShape_char)

theorem canPlaceShape_bounds_overlap_witness:
  "board_ok createEmptyBoard \<and>
   shape_ok \<lparr> blocks = [[True, True]], shape_color = 255, width = 2, height = 1 \<rparr> \<and>
   canPlaceShape createEmptyBoard 0 7
     \<lparr> blocks = [[True, True]], shape_color = 255, width = 2, height = 1 \<rparr> = Some False \<and>
   canPlaceShape createEmptyBoard 0 6
     \<lparr> blocks = [[True, True]], shape_color = 255, width = 2, height = 1 \<rparr> = Some True"
proof -
  have b: "board_ok createEmptyBoard" by (rule board_ok_createEmptyBoard)
  have s: "shape_ok \<lparr> blocks = [[True, True]], shape_color = 255, width = 2, height = 1 \<rparr>"
    by (simp add: shape_ok_def)
  have e: "\<And>c. c < 2 \<Longrightarrow> isEmpty (createEmptyBoard ! 0 ! nat (6 + int c))"
    by (simp add: createEmptyBoard_nth GRID_SIZE_def emptyBlock_def)
  show ?thesis
    using b s canPlaceShape_bounds_overlap [OF b s, of 0 7]
      canPlaceShape_bounds_overlap [OF b s, of 0 6]
    by (simp add: GRID_SIZE_def e)
qed

text \<open>
  C10. With an empty list of active shapes \<open>hasValidMoves\<close> returns false, whatever the
  board holds.
\<close>

theorem hasValidMoves_empty_batch:
  "hasValidMoves b [] = Some False"
  by (simp add: hasValidMoves_def)

theorem hasValidMoves_empty_batch_witness:
  "hasValidMoves createEmptyBoard [] = Some False"
  using hasValidMoves_empty_batch [of createEmptyBoard] by simp

section \<open>Lemmas on move availability, line clearing and placement\<close>

lemma someM_total:
  "\<forall>x \<in> set xs. \<exists>v. f x = Some v \<Longrightarrow> someM f xs = Some (\<exists>x \<in> set xs. f x = Some True)"
  by (induction xs) auto

lemma canPlaceShape_total:
  "board_ok b \<Longrightarrow> shape_ok s \<Longrightarrow> \<exists>v. canPlaceShape b row col s = Some v"
  by (simp add: canPlaceShape_char)

lemma hasValidMoves_char:
  assumes "board_ok b" and "list_all shape_ok shs"
  shows "hasValidMoves b shs =
           Some (\<exists>s \<in> set shs. \<exists>(row, col) \<in> set gridPositions.
                   canPlaceShape b (int row) (int col) s = Some True)"
proof -
  have inner: "someM (\<lambda>(row, col). canPlaceShape b (int row) (int col) s) gridPositions
                 = Some (\<exists>(row, col) \<in> set gridPositions.
                           canPlaceShape b (int row) (int col) s = Some True)"
    if "s \<in> set shs" for s
  proof -
    have "shape_ok s" using assms(2) that by (simp add: list_all_iff)
    then have "\<forall>p \<in> set gridPositions. \<exists>v. (case p of (row, col) \<Rightarrow>
                  canPlaceShape b (int row) (int col) s) = Some v"
      using canPlaceShape_total [OF assms(1)] by (auto split: prod.splits)
    from someM_total [OF this] show ?thesis by (simp add: case_prod_unfold)
  qed
  have "someM (\<lambda>s. someM (\<lambda>(row, col). canPlaceShape b (int row) (int col) s) gridPositions) shs
          = Some (\<exists>s \<in> set shs. someM (\<lambda>(row, col). canPlaceShape b (int row) (int col) s)
                                    gridPositions = Some True)"
    by (rule someM_total) (simp add: inner)
  also have "\<dots> = Some (\<exists>s \<in> set shs. \<exists>(row, col) \<in> set gridPositions.
                   canPlaceShape b (int row) (int col) s = Some True)"
    using inner by auto
  finally show ?thesis by (auto simp: hasValidMoves_def)
qed

lemma set_gridPositions:
  "set gridPositions = {(r, c). r < GRID_SIZE \<and> c < GRID_SIZE}"
  by (auto simp: gridPositions_def)

lemma lineIsFull_in_range:
  "board_ok b \<Longrightarrow> \<forall>(r, c) \<in> set cells. r < GRID_SIZE \<and> c < GRID_SIZE \<Longrightarrow>
   lineIsFull b cells = Some (\<forall>(r, c) \<in> set cells. \<not> isEmpty (b ! r ! c))"
proof (induction cells)
  case Nil
  then show ?case by simp
next
  case (Cons p cells)
  obtain r c where p: "p = (r, c)" by (cases p)
  have at: "blockAt b (int r) (int c) = Some (b ! r ! c)"
    using blockAt_in_range [OF Cons.prems(1), of "int r" "int c"] Cons.prems(2) p by simp
  show ?case using Cons by (simp add: p at)
qed

lemma filterM_total:
  "\<forall>x \<in> set xs. f x = Some (p x) \<Longrightarrow> filterM f xs = Some (filter p xs)"
  by (induction xs) auto

lemma rowsToRemove_char:
  assumes "board_ok b"
  shows "rowsToRemove b =
           Some (filter (\<lambda>r. \<forall>c < GRID_SIZE. \<not> isEmpty (b ! r ! c)) [0..<GRID_SIZE])"
  unfolding rowsToRemove_def
  by (rule filterM_total) (auto simp: lineIsFull_in_range [OF assms])

lemma colsToRemove_char:
  assumes "board_ok b"
  shows "colsToRemove b =
           Some (filter (\<lambda>c. \<forall>r < GRID_SIZE. \<not> isEmpty (b ! r ! c)) [0..<GRID_SIZE])"
  unfolding colsToRemove_def
  by (rule filterM_total) (auto simp: lineIsFull_in_range [OF assms])

lemma nth_writeCell:
  "i < length m \<Longrightarrow> j < length (m ! i) \<Longrightarrow>
   writeCell m i j v ! i' ! j' = (if i' = i \<and> j' = j then v else m ! i' ! j')"
  by (auto simp: writeCell_def nth_list_update)

lemma length_writeCell [simp]: "length (writeCell m i j v) = length m"
  by (simp add: writeCell_def)

lemma length_nth_writeCell [simp]: "length (writeCell m i j v ! i') = length (m ! i')"
  by (cases "i < length m") (auto simp: writeCell_def nth_list_update list_update_beyond)

lemma board_ok_writeCell: "board_ok b \<Longrightarrow> board_ok (writeCell b i j v)"
  by (simp add: board_ok_def list_all_length)

lemma fillCells_char:
  "board_ok b \<Longrightarrow> 0 \<le> startRow \<Longrightarrow> 0 \<le> startCol \<Longrightarrow>
   \<forall>(r, c) \<in> set cells. startRow + int r < int GRID_SIZE \<and> startCol + int c < int GRID_SIZE \<Longrightarrow>
   \<exists>b'. fillCells b startRow startCol col cells = Some b' \<and> board_ok b' \<and>
        (\<forall>i < GRID_SIZE. \<forall>j < GRID_SIZE.
           b' ! i ! j =
             (if \<exists>(r, c) \<in> set cells. int i = startRow + int r \<and> int j = startCol + int c
              then \<lparr> color = col, isEmpty = False \<rparr> else b ! i ! j))"
proof (induction cells arbitrary: b)
  case Nil
  then show ?case by simp
next
  case (Cons p cells)
  obtain r c where p: "p = (r, c)" by (cases p)
  let ?i = "nat (startRow + int r)" and ?j = "nat (startCol + int c)"
  from Cons.prems p have rng: "?i < GRID_SIZE" "?j < GRID_SIZE" by auto
  have at: "blockAt b (startRow + int r) (startCol + int c) = Some (b ! ?i ! ?j)"
    using Cons.prems rng by (intro blockAt_in_range) auto
  let ?b1 = "writeCell b ?i ?j ((b ! ?i ! ?j)\<lparr> isEmpty := False, color := col \<rparr>)"
  have ok1: "board_ok ?b1" using Cons.prems(1) by (rule board_ok_writeCell)
  from Cons.IH [OF ok1 Cons.prems(2,3)] Cons.prems(4)
  obtain b' where b': "fillCells ?b1 startRow startCol col cells = Some b'" "board_ok b'"
    and cells: "\<forall>i < GRID_SIZE. \<forall>j < GRID_SIZE.
           b' ! i ! j =
             (if \<exists>(r, c) \<in> set cells. int i = startRow + int r \<and> int j = startCol + int c
              then \<lparr> color = col, isEmpty = False \<rparr> else ?b1 ! i ! j)"
    by auto
  have len: "?i < length b" "?j < length (b ! ?i)"
    using rng Cons.prems(1) board_ok_nth [OF Cons.prems(1) rng(1)] by (auto simp: board_ok_def)
  have b1: "?b1 ! i ! j = (if i = ?i \<and> j = ?j then \<lparr> color = col, isEmpty = False \<rparr> else b ! i ! j)"
    for i j
    by (simp add: nth_writeCell [OF len])
  have eq: "(i = ?i \<and> j = ?j) = (int i = startRow + int r \<and> int j = startCol + int c)" for i j
    using Cons.prems(2,3) by auto
  have "fillCells b startRow startCol col (p # cells) = Some b'"
    by (simp add: p at b')
  moreover have "\<forall>i < GRID_SIZE. \<forall>j < GRID_SIZE.
           b' ! i ! j =
             (if \<exists>(r, c) \<in> set (p # cells). int i = startRow + int r \<and> int j = startCol + int c
              then \<lparr> color = col, isEmpty = False \<rparr> else b ! i ! j)"
    using cells by (auto simp: p b1 eq)
  ultimately show ?case using b'(2) by blast
qed

lemma count_cells:
  "sum_list (map (\<lambda>row. length (filter P row)) m)
     = card {(i, j). i < length m \<and> j < length (m ! i) \<and> P (m ! i ! j)}"
proof -
  have "sum_list (map (\<lambda>row. length (filter P row)) m)
          = (\<Sum>i = 0..<length m. length (filter P (m ! i)))"
    by (simp add: sum_list_sum_nth)
  also have "\<dots> = (\<Sum>i \<in> {0..<length m}. card {j. j < length (m ! i) \<and> P (m ! i ! j)})"
    by (simp add: length_filter_conv_card)
  also have "\<dots> = card (SIGMA i : {0..<length m}. {j. j < length (m ! i) \<and> P (m ! i ! j)})"
    by simp
  also have "(SIGMA i : {0..<length m}. {j. j < length (m ! i) \<and> P (m ! i ! j)})
               = {(i, j). i < length m \<and> j < length (m ! i) \<and> P (m ! i ! j)}"
    by auto
  finally show ?thesis .
qed

lemma filledCount_card:
  "board_ok b \<Longrightarrow>
   filledCount b = card {(i, j). i < GRID_SIZE \<and> j < GRID_SIZE \<and> \<not> isEmpty (b ! i ! j)}"
proof -
  assume ok: "board_ok b"
  have "{(i, j). i < length b \<and> j < length (b ! i) \<and> \<not> isEmpty (b ! i ! j)}
          = {(i, j). i < GRID_SIZE \<and> j < GRID_SIZE \<and> \<not> isEmpty (b ! i ! j)}"
    using ok board_ok_nth [OF ok] by (auto simp: board_ok_def)
  then show ?thesis by (simp add: filledCount_def count_cells)
qed

lemma distinct_concat_map:
  "distinct xs \<Longrightarrow> (\<And>x. x \<in> set xs \<Longrightarrow> distinct (f x)) \<Longrightarrow>
   (\<And>x y. x \<in> set xs \<Longrightarrow> y \<in> set xs \<Longrightarrow> x \<noteq> y \<Longrightarrow> set (f x) \<inter> set (f y) = {}) \<Longrightarrow>
   distinct (concat (map f xs))"
proof (induction xs)
  case Nil
  then show ?case by simp
next
  case (Cons x xs)
  have "distinct (concat (map f xs))" using Cons by auto
  moreover have "distinct (f x)" using Cons.prems(2) by simp
  moreover have "set (f x) \<inter> set (f y) = {}" if "y \<in> set xs" for y
    using Cons.prems(1) Cons.prems(3) [of x y] that by auto
  ultimately show ?case by auto
qed

lemma distinct_shapeCells: "distinct (shapeCells m)"
  unfolding shapeCells_def
  by (rule distinct_concat_map) (auto simp: distinct_map inj_on_def)

lemma trueCount_shapeCells: "trueCount m = length (shapeCells m)"
proof -
  have "trueCount m = card (set (shapeCells m))"
    by (simp add: trueCount_def count_cells set_shapeCells)
  then show ?thesis by (simp add: distinct_card [OF distinct_shapeCells])
qed

lemma set_pushUnique [simp]: "set (pushUnique acc p) = insert p (set acc)"
  by (auto simp: pushUnique_def)

lemma distinct_pushUnique [simp]: "distinct (pushUnique acc p) = distinct acc"
  by (auto simp: pushUnique_def)

lemma fold_pushUnique:
  "set (fold (\<lambda>y acc. pushUnique acc (h y)) ys acc) = set acc \<union> h ` set ys \<and>
   distinct (fold (\<lambda>y acc. pushUnique acc (h y)) ys acc) = distinct acc"
  by (induction ys arbitrary: acc) auto

lemma fold_fold_pushUnique:
  "set (fold (\<lambda>x acc. fold (\<lambda>y acc. pushUnique acc (h x y)) ys acc) xs acc)
     = set acc \<union> {h x y | x y. x \<in> set xs \<and> y \<in> set ys} \<and>
   distinct (fold (\<lambda>x acc. fold (\<lambda>y acc. pushUnique acc (h x y)) ys acc) xs acc)
     = distinct acc"
proof (induction xs arbitrary: acc)
  case Nil
  then show ?case by simp
next
  case (Cons x xs)
  show ?case
    using Cons [of "fold (\<lambda>y acc. pushUnique acc (h x y)) ys acc"]
      fold_pushUnique [of "h x" ys acc]
    by auto
qed

lemma set_blocksToRemove:
  "set (blocksToRemove rows cols)
     = {(r, c). (r \<in> set rows \<and> c < GRID_SIZE) \<or> (r < GRID_SIZE \<and> c \<in> set cols)}"
  unfolding blocksToRemove_def
  using fold_fold_pushUnique [of "\<lambda>c r. (r, c)" "[0..<GRID_SIZE]" cols]
    fold_fold_pushUnique [of "\<lambda>r c. (r, c)" "[0..<GRID_SIZE]" rows "[]"]
  by auto

lemma distinct_blocksToRemove: "distinct (blocksToRemove rows cols)"
  unfolding blocksToRemove_def
  using fold_fold_pushUnique [of "\<lambda>c r. (r, c)" "[0..<GRID_SIZE]" cols]
    fold_fold_pushUnique [of "\<lambda>r c. (r, c)" "[0..<GRID_SIZE]" rows "[]"]
  by auto

lemma fold_push_append: "fold (\<lambda>y acc. acc @ [h y]) ys acc = acc @ map h ys"
  by (induction ys arbitrary: acc) auto

lemma fold_pushUnique_append:
  "distinct (map h ys) \<Longrightarrow> set acc \<inter> h ` set ys = {} \<Longrightarrow>
   fold (\<lambda>y acc. pushUnique acc (h y)) ys acc = acc @ map h ys"
proof (induction ys arbitrary: acc)
  case Nil
  then show ?case by simp
next
  case (Cons y ys)
  have "pushUnique acc (h y) = acc @ [h y]" using Cons.prems(2) by (auto simp: pushUnique_def)
  moreover have "set (acc @ [h y]) \<inter> h ` set ys = {}" using Cons.prems by auto
  ultimately show ?case using Cons.IH [of "acc @ [h y]"] Cons.prems(1) by simp
qed

lemma rows_phase_same:
  "distinct rows \<Longrightarrow> set acc \<inter> {(r, c). r \<in> set rows} = {} \<Longrightarrow>
   fold (\<lambda>row acc. fold (\<lambda>col acc. pushUnique acc (row, col)) [0..<GRID_SIZE] acc) rows acc
     = fold (\<lambda>row acc. fold (\<lambda>col acc. acc @ [(row, col)]) [0..<GRID_SIZE] acc) rows acc"
proof (induction rows arbitrary: acc)
  case Nil
  then show ?case by simp
next
  case (Cons r rows)
  have one: "fold (\<lambda>col acc. pushUnique acc (r, col)) [0..<GRID_SIZE] acc
               = acc @ map (\<lambda>col. (r, col)) [0..<GRID_SIZE]"
    using Cons.prems(2) by (intro fold_pushUnique_append) (auto simp: distinct_map inj_on_def)
  have two: "fold (\<lambda>col acc. acc @ [(r, col)]) [0..<GRID_SIZE] acc
               = acc @ map (\<lambda>col. (r, col)) [0..<GRID_SIZE]"
    by (rule fold_push_append)
  have "set (acc @ map (\<lambda>col. (r, col)) [0..<GRID_SIZE]) \<inter> {(r', c). r' \<in> set rows} = {}"
    using Cons.prems by auto
  then show ?case using Cons.IH [of "acc @ map (\<lambda>col. (r, col)) [0..<GRID_SIZE]"] Cons.prems(1)
    by (simp add: one two)
qed

lemma blocksToRemove_rows_unchecked_eq:
  "distinct rows \<Longrightarrow> blocksToRemove_rows_unchecked rows cols = blocksToRemove rows cols"
  unfolding blocksToRemove_rows_unchecked_def blocksToRemove_def
  using rows_phase_same [of rows "[]"] by simp

lemma applyClear_char:
  "board_ok b \<Longrightarrow> \<forall>(r, c) \<in> set blks. r < GRID_SIZE \<and> c < GRID_SIZE \<Longrightarrow>
   board_ok (applyClear b blks) \<and>
   (\<forall>r < GRID_SIZE. \<forall>c < GRID_SIZE.
      applyClear b blks ! r ! c =
        (if (r, c) \<in> set blks then \<lparr> color = 0, isEmpty = True \<rparr> else b ! r ! c))"
proof (induction blks arbitrary: b)
  case Nil
  then show ?case by (simp add: applyClear_def)
next
  case (Cons p blks)
  obtain r c where p: "p = (r, c)" by (cases p)
  from Cons.prems p have rng: "r < GRID_SIZE" "c < GRID_SIZE" by auto
  let ?b1 = "clearBlock b (r, c)"
  have ok1: "board_ok ?b1"
    using Cons.prems(1) by (simp add: clearBlock_def board_ok_writeCell)
  have len: "r < length b" "c < length (b ! r)"
    using rng Cons.prems(1) board_ok_nth [OF Cons.prems(1) rng(1)] by (auto simp: board_ok_def)
  have b1: "?b1 ! i ! j = (if i = r \<and> j = c then \<lparr> color = 0, isEmpty = True \<rparr> else b ! i ! j)"
    for i j
    by (simp add: clearBlock_def nth_writeCell [OF len])
  have step: "applyClear b (p # blks) = applyClear ?b1 blks"
    by (simp add: applyClear_def p)
  from Cons.IH [OF ok1] Cons.prems(2)
  have ih: "board_ok (applyClear ?b1 blks)"
     "\<forall>r < GRID_SIZE. \<forall>c < GRID_SIZE.
      applyClear ?b1 blks ! r ! c =
        (if (r, c) \<in> set blks then \<lparr> color = 0, isEmpty = True \<rparr> else ?b1 ! r ! c)"
    by auto
  show ?case
    unfolding step using ih by (auto simp: p b1)
qed

lemma checkLines_char:
  assumes "state_ok st"
  shows "\<exists>rows cols v.
           rowsToRemove (gameBoard st) = Some rows \<and>
           colsToRemove (gameBoard st) = Some cols \<and>
           hasValidMoves (gameBoard st) (shapes st) = Some v \<and>
           checkLines st =
             Some ((if length (shapes st) = 1 \<and> \<not> v then gameOver else (\<lambda>x. x))
                     (if rows \<noteq> [] \<or> cols \<noteq> []
                      then st\<lparr> pendingClears := pendingClears st @ [blocksToRemove rows cols],
                               score := score st + (int (length rows) + int (length cols)) * 100 \<rparr>
                      else st))"
proof -
  have b: "board_ok (gameBoard st)" and s: "list_all shape_ok (shapes st)"
    using assms by (auto simp: state_ok_def)
  show ?thesis
    unfolding checkLines_def
    by (simp add: rowsToRemove_char [OF b] colsToRemove_char [OF b] hasValidMoves_char [OF b s]
        updateScore_def clearLines_def Let_def)
qed

lemma fillCells_shape:
  assumes b: "board_ok b" and s: "shape_ok s"
    and can: "canPlaceShape b row col s = Some True"
  shows "\<exists>b'. fillCells b row col (shape_color s) (shapeCells (blocks s)) = Some b' \<and>
              board_ok b' \<and>
              (\<forall>i < GRID_SIZE. \<forall>j < GRID_SIZE.
                 b' ! i ! j =
                   (if \<exists>r c. r < height s \<and> c < width s \<and> blocks s ! r ! c \<and>
                             int i = row + int r \<and> int j = col + int c
                    then \<lparr> color = shape_color s, isEmpty = False \<rparr> else b ! i ! j)) \<and>
              filledCount b' = filledCount b + trueCount (blocks s)"
proof -
  from can canPlaceShape_char [OF b s, of row col]
  have bounds: "0 \<le> row" "0 \<le> col" "row + int (height s) \<le> int GRID_SIZE"
      "col + int (width s) \<le> int GRID_SIZE"
    and free: "\<And>r c. r < height s \<Longrightarrow> c < width s \<Longrightarrow> blocks s ! r ! c \<Longrightarrow>
                 isEmpty (b ! nat (row + int r) ! nat (col + int c))"
    by auto
  have h: "height s = length (blocks s)" using s by (simp add: shape_ok_def)
  have cells: "set (shapeCells (blocks s))
                 = {(r, c). r < height s \<and> c < width s \<and> blocks s ! r ! c}"
    using h shape_ok_row_length [OF s] by (auto simp: set_shapeCells)
  have rng: "\<forall>(r, c) \<in> set (shapeCells (blocks s)).
               row + int r < int GRID_SIZE \<and> col + int c < int GRID_SIZE"
    using bounds by (auto simp: cells)
  from fillCells_char [OF b bounds(1,2) rng, of "shape_color s"]
  obtain b' where b': "fillCells b row col (shape_color s) (shapeCells (blocks s)) = Some b'"
      "board_ok b'"
    and nth: "\<forall>i < GRID_SIZE. \<forall>j < GRID_SIZE.
           b' ! i ! j =
             (if \<exists>(r, c) \<in> set (shapeCells (blocks s)). int i = row + int r \<and> int j = col + int c
              then \<lparr> color = shape_color s, isEmpty = False \<rparr> else b ! i ! j)"
    by blast
  have ex: "(\<exists>(r, c) \<in> set (shapeCells (blocks s)). int i = row + int r \<and> int j = col + int c)
             = (\<exists>r c. r < height s \<and> c < width s \<and> blocks s ! r ! c \<and>
                       int i = row + int r \<and> int j = col + int c)" for i j
    by (auto simp: cells)
  let ?f = "\<lambda>(r, c). (nat (row + int r), nat (col + int c))"
  let ?F = "\<lambda>b. {(i, j). i < GRID_SIZE \<and> j < GRID_SIZE \<and> \<not> isEmpty (b ! i ! j)}"
  have fin: "finite (?F b)"
    by (rule finite_subset [of _ "{..<GRID_SIZE} \<times> {..<GRID_SIZE}"]) auto
  have F': "?F b' = ?F b \<union> ?f ` set (shapeCells (blocks s))"
  proof (rule set_eqI, clarify)
    fix i j
    show "((i, j) \<in> ?F b') = ((i, j) \<in> ?F b \<union> ?f ` set (shapeCells (blocks s)))"
    proof (cases "i < GRID_SIZE \<and> j < GRID_SIZE")
      case True
      have img: "((i, j) \<in> ?f ` set (shapeCells (blocks s)))
             = (\<exists>(r, c) \<in> set (shapeCells (blocks s)). int i = row + int r \<and> int j = col + int c)"
      proof -
        have "\<And>r c. ((i, j) = (nat (row + int r), nat (col + int c)))
                 = (int i = row + int r \<and> int j = col + int c)"
          using bounds(1,2) by auto
        then show ?thesis by (simp add: image_iff case_prod_unfold)
      qed
      show ?thesis using True nth img by auto
    next
      case False
      have "(i, j) \<notin> ?f ` set (shapeCells (blocks s))"
        using False rng bounds(1,2) by (auto simp: image_iff)
      then show ?thesis using False by auto
    qed
  qed
  have disj: "?F b \<inter> ?f ` set (shapeCells (blocks s)) = {}"
    using free by (auto simp: cells)
  have inj: "inj_on ?f (set (shapeCells (blocks s)))"
    using bounds(1,2) by (auto simp: inj_on_def)
  have "filledCount b' = card (?F b')" using b'(2) by (rule filledCount_card)
  also have "\<dots> = card (?F b) + card (?f ` set (shapeCells (blocks s)))"
    unfolding F' using fin disj by (intro card_Un_disjoint) auto
  also have "card (?f ` set (shapeCells (blocks s))) = length (shapeCells (blocks s))"
    using inj by (simp add: card_image distinct_card [OF distinct_shapeCells])
  finally have cnt: "filledCount b' = filledCount b + trueCount (blocks s)"
    by (simp add: filledCount_card [OF b] trueCount_shapeCells)
  show ?thesis using b' nth cnt unfolding ex by blast
qed

lemma checkLines_keeps:
  assumes "state_ok st"
  shows "\<exists>st'. checkLines st = Some st' \<and> gameBoard st' = gameBoard st \<and>
              shapes st' = shapes st"
  using checkLines_char [OF assms] by (auto simp: gameOver_def)

text \<open>
  C3. When \<open>canPlaceShape\<close> is true, \<open>placeShape\<close> sets exactly the blocks under a true
  cell of the matrix to not empty with the colour of the shape and leaves every other block
  as it was (the clear of completed lines is only scheduled), so that the number of filled
  blocks grows by the number of true cells of the matrix.
\<close>

theorem placeShape_commits:
  assumes "state_ok st" and "shape_ok s"
    and "canPlaceShape (gameBoard st) row col s = Some True"
  shows "\<exists>st'. placeShape st row col s = Some st' \<and>
              board_ok (gameBoard st') \<and>
              (\<forall>i < GRID_SIZE. \<forall>j < GRID_SIZE.
                 gameBoard st' ! i ! j =
                   (if \<exists>r c. r < height s \<and> c < width s \<and> blocks s ! r ! c \<and>
                             int i = row + int r \<and> int j = col + int c
                    then \<lparr> color = shape_color s, isEmpty = False \<rparr>
                    else gameBoard st ! i ! j)) \<and>
              filledCount (gameBoard st') = filledCount (gameBoard st) + trueCount (blocks s)"
proof -
  have b: "board_ok (gameBoard st)" using assms(1) by (simp add: state_ok_def)
  from fillCells_shape [OF b assms(2,3)]
  obtain b' where b': "fillCells (gameBoard st) row col (shape_color s) (shapeCells (blocks s))
                         = Some b'" "board_ok b'"
    and nth: "\<forall>i < GRID_SIZE. \<forall>j < GRID_SIZE.
                 b' ! i ! j =
                   (if \<exists>r c. r < height s \<and> c < width s \<and> blocks s ! r ! c \<and>
                             int i = row + int r \<and> int j = col + int c
                    then \<lparr> color = shape_color s, isEmpty = False \<rparr> else gameBoard st ! i ! j)"
    and cnt: "filledCount b' = filledCount (gameBoard st) + trueCount (blocks s)"
    by blast
  have ok: "state_ok (st\<lparr> gameBoard := b' \<rparr>)"
    using assms(1) b'(2) by (simp add: state_ok_def)
  from checkLines_keeps [OF ok]
  obtain st' where st': "checkLines (st\<lparr> gameBoard := b' \<rparr>) = Some st'" "gameBoard st' = b'"
    by auto
  have "placeShape st row col s = Some st'"
    by (simp add: placeShape_def b'(1) st'(1))
  then show ?thesis using st'(2) b'(2) nth cnt by auto
qed

text \<open>
  One call of \<open>checkLines\<close> works per line: a row is selected iff its GRID_SIZE blocks are
  all filled, and likewise a column; the blocks scheduled for clearing are the union of the
  selected rows and columns, each block once (in both copies of \<open>clearLines\<close>), and
  clearing them empties exactly these blocks; the call adds (rows + columns) * 100 to the
  score.
\<close>

theorem checkLines_clears_per_line:
  assumes "state_ok st"
  shows "\<exists>rows cols st'.
           rowsToRemove (gameBoard st) = Some rows \<and>
           colsToRemove (gameBoard st) = Some cols \<and>
           checkLines st = Some st' \<and>
           distinct rows \<and> distinct cols \<and>
           (\<forall>r. r \<in> set rows \<longleftrightarrow>
                  r < GRID_SIZE \<and> (\<forall>c < GRID_SIZE. \<not> isEmpty (gameBoard st ! r ! c))) \<and>
           (\<forall>c. c \<in> set cols \<longleftrightarrow>
                  c < GRID_SIZE \<and> (\<forall>r < GRID_SIZE. \<not> isEmpty (gameBoard st ! r ! c))) \<and>
           distinct (blocksToRemove rows cols) \<and>
           blocksToRemove_rows_unchecked rows cols = blocksToRemove rows cols \<and>
           set (blocksToRemove rows cols)
             = {(r, c). r < GRID_SIZE \<and> c < GRID_SIZE \<and> (r \<in> set rows \<or> c \<in> set cols)} \<and>
           pendingClears st'
             = (if rows \<noteq> [] \<or> cols \<noteq> []
                then pendingClears st @ [blocksToRemove rows cols] else pendingClears st) \<and>
           (\<forall>r < GRID_SIZE. \<forall>c < GRID_SIZE.
              applyClear (gameBoard st') (blocksToRemove rows cols) ! r ! c =
                (if r \<in> set rows \<or> c \<in> set cols then \<lparr> color = 0, isEmpty = True \<rparr>
                 else gameBoard st ! r ! c)) \<and>
           score st' = score st + (int (length rows) + int (length cols)) * 100"
proof -
  have b: "board_ok (gameBoard st)" using assms by (simp add: state_ok_def)
  define rows where "rows = filter (\<lambda>r. \<forall>c < GRID_SIZE. \<not> isEmpty (gameBoard st ! r ! c))
                              [0..<GRID_SIZE]"
  define cols where "cols = filter (\<lambda>c. \<forall>r < GRID_SIZE. \<not> isEmpty (gameBoard st ! r ! c))
                              [0..<GRID_SIZE]"
  have r: "rowsToRemove (gameBoard st) = Some rows"
    and c: "colsToRemove (gameBoard st) = Some cols"
    by (simp_all add: rows_def cols_def rowsToRemove_char [OF b] colsToRemove_char [OF b])
  from checkLines_char [OF assms] r c
  obtain st' where st': "checkLines st = Some st'" "gameBoard st' = gameBoard st"
    and pend: "pendingClears st'
             = (if rows \<noteq> [] \<or> cols \<noteq> []
                then pendingClears st @ [blocksToRemove rows cols] else pendingClears st)"
    and sc: "score st' = score st + (int (length rows) + int (length cols)) * 100"
    by (auto simp: gameOver_def)
  have mem: "\<And>r. r \<in> set rows \<longleftrightarrow>
                  r < GRID_SIZE \<and> (\<forall>c < GRID_SIZE. \<not> isEmpty (gameBoard st ! r ! c))"
       "\<And>c. c \<in> set cols \<longleftrightarrow>
                  c < GRID_SIZE \<and> (\<forall>r < GRID_SIZE. \<not> isEmpty (gameBoard st ! r ! c))"
    by (auto simp: rows_def cols_def)
  have d: "distinct rows" "distinct cols" by (simp_all add: rows_def cols_def)
  have setb: "set (blocksToRemove rows cols)
             = {(r, c). r < GRID_SIZE \<and> c < GRID_SIZE \<and> (r \<in> set rows \<or> c \<in> set cols)}"
    using mem by (auto simp: set_blocksToRemove)
  have rng: "\<forall>(r, c) \<in> set (blocksToRemove rows cols). r < GRID_SIZE \<and> c < GRID_SIZE"
    by (auto simp: setb)
  have clr: "\<forall>r < GRID_SIZE. \<forall>c < GRID_SIZE.
              applyClear (gameBoard st') (blocksToRemove rows cols) ! r ! c =
                (if r \<in> set rows \<or> c \<in> set cols then \<lparr> color = 0, isEmpty = True \<rparr>
                 else gameBoard st ! r ! c)"
    using applyClear_char [OF b rng] by (simp add: st'(2) setb)
  show ?thesis
    using r c st'(1) d mem distinct_blocksToRemove [of rows cols]
      blocksToRemove_rows_unchecked_eq [OF d(1), of cols] setb pend clr sc
    by blast
qed

theorem checkLines_clears_per_line_witness:
  "state_ok (playing crossBoard [unitShape]) \<and>
   map_option score (checkLines (playing crossBoard [unitShape])) = Some 200"
proof -
  have ok: "state_ok (playing crossBoard [unitShape])" by code_simp
  have r: "rowsToRemove crossBoard = Some [3]" by code_simp
  have c: "colsToRemove crossBoard = Some [7]" by code_simp
  from checkLines_clears_per_line [OF ok] r c
  obtain st' where "checkLines (playing crossBoard [unitShape]) = Some st'"
    "score st' = 200"
    by (auto simp: playing_def)
  then show ?thesis using ok by simp
qed

theorem placeShape_commits_witness:
  "state_ok (playing createEmptyBoard [dominoShape]) \<and> shape_ok dominoShape \<and>
   canPlaceShape (gameBoard (playing createEmptyBoard [dominoShape])) 0 6 dominoShape = Some True \<and>
   map_option (\<lambda>st. filledCount (gameBoard st))
     (placeShape (playing createEmptyBoard [dominoShape]) 0 6 dominoShape) = Some 2"
proof -
  have ok: "state_ok (playing createEmptyBoard [dominoShape])" by code_simp
  have s: "shape_ok dominoShape" by code_simp
  have can: "canPlaceShape (gameBoard (playing createEmptyBoard [dominoShape])) 0 6 dominoShape
               = Some True"
    by code_simp
  have n: "filledCount (gameBoard (playing createEmptyBoard [dominoShape])) = 0"
    "trueCount (blocks dominoShape) = 2"
    by code_simp+
  from placeShape_commits [OF ok s can] n
  obtain st' where "placeShape (playing createEmptyBoard [dominoShape]) 0 6 dominoShape = Some st'"
    "filledCount (gameBoard st') = 2"
    by auto
  then show ?thesis using ok s can by simp
qed

section \<open>Lemmas on rotation\<close>

lemma dims_nth: "dims m n k \<Longrightarrow> i < n \<Longrightarrow> length (m ! i) = k"
  by (simp add: dims_def list_all_length)

lemma dims_writeCell: "dims m n k \<Longrightarrow> dims (writeCell m i j v) n k"
  by (simp add: dims_def list_all_length)

lemma fold_cols:
  "dims rot n k \<Longrightarrow> j0 < k \<Longrightarrow> \<forall>c \<in> set cs. c < n \<Longrightarrow>
   dims (fold (\<lambda>col rot. writeCell rot col j0 (g col)) cs rot) n k \<and>
   (\<forall>c < n. \<forall>j < k.
      fold (\<lambda>col rot. writeCell rot col j0 (g col)) cs rot ! c ! j
        = (if c \<in> set cs \<and> j = j0 then g c else rot ! c ! j))"
proof (induction cs arbitrary: rot)
  case Nil
  then show ?case by simp
next
  case (Cons a cs)
  let ?r1 = "writeCell rot a j0 (g a)"
  have d1: "dims ?r1 n k" using Cons.prems(1) by (rule dims_writeCell)
  have a: "a < n" using Cons.prems(3) by simp
  have len: "a < length rot" "j0 < length (rot ! a)"
    using a Cons.prems(1,2) dims_nth [OF Cons.prems(1) a] by (auto simp: dims_def)
  have r1: "?r1 ! c ! j = (if c = a \<and> j = j0 then g a else rot ! c ! j)" for c j
    by (simp add: nth_writeCell [OF len])
  from Cons.IH [OF d1 Cons.prems(2)] Cons.prems(3)
  show ?case by (auto simp: r1)
qed

lemma fold_rows:
  "dims rot n k \<Longrightarrow> \<forall>r \<in> set rs. r < k \<Longrightarrow>
   dims (fold (\<lambda>row rot. fold (\<lambda>col rot. writeCell rot col (k - 1 - row) (g row col)) [0..<n] rot)
           rs rot) n k \<and>
   (\<forall>c < n. \<forall>j < k.
      fold (\<lambda>row rot. fold (\<lambda>col rot. writeCell rot col (k - 1 - row) (g row col)) [0..<n] rot)
        rs rot ! c ! j
        = (if k - 1 - j \<in> set rs then g (k - 1 - j) c else rot ! c ! j))"
proof (induction rs arbitrary: rot)
  case Nil
  then show ?case by simp
next
  case (Cons a rs)
  let ?r1 = "fold (\<lambda>col rot. writeCell rot col (k - 1 - a) (g a col)) [0..<n] rot"
  have a: "a < k" using Cons.prems(2) by simp
  have j0: "k - 1 - a < k" using a by simp
  from fold_cols [OF Cons.prems(1) j0, of "[0..<n]" "g a"]
  have d1: "dims ?r1 n k"
    and r1: "\<forall>c < n. \<forall>j < k. ?r1 ! c ! j = (if j = k - 1 - a then g a c else rot ! c ! j)"
    by auto
  have eq: "(j = k - 1 - a) = (k - 1 - j = a)" if "j < k" for j
    using a that by auto
  from Cons.IH [OF d1] Cons.prems(2)
  show ?case using r1 eq by auto
qed

lemma dims_replicate: "dims (replicate n (replicate k x)) n k"
  by (simp add: dims_def list_all_length)

lemma rotateShape_char:
  assumes "sh \<noteq> []" and "list_all (\<lambda>row. length row = cols) sh"
  shows "\<exists>rot. rotateShape sh = Some rot \<and> dims rot cols (length sh) \<and>
           (\<forall>c < cols. \<forall>j < length sh. rot ! c ! j = sh ! (length sh - 1 - j) ! c)"
proof -
  obtain row0 rest where sh: "sh = row0 # rest" using assms(1) by (cases sh) auto
  have c0: "length row0 = cols" using assms(2) sh by simp
  let ?rows = "length sh"
  let ?rot = "fold (\<lambda>row rot.
                      fold (\<lambda>col rot. writeCell rot col (?rows - 1 - row) (readCell sh row col))
                           [0..<cols] rot)
                    [0..<?rows] (replicate cols (replicate ?rows False))"
  have r: "rotateShape sh = Some ?rot"
    unfolding rotateShape_def using sh c0 by (simp add: Let_def)
  from fold_rows [where rot = "replicate cols (replicate ?rows False)" and n = cols
      and k = ?rows and rs = "[0..<?rows]" and g = "readCell sh"] dims_replicate [of cols ?rows False]
  have d: "dims ?rot cols ?rows"
    and n: "\<forall>c < cols. \<forall>j < ?rows. ?rot ! c ! j = readCell sh (?rows - 1 - j) c"
    by auto
  have rd: "readCell sh (?rows - 1 - j) c = sh ! (?rows - 1 - j) ! c" if "c < cols" "j < ?rows" for c j
  proof -
    have "?rows - 1 - j < ?rows" using that by simp
    then have "length (sh ! (?rows - 1 - j)) = cols"
      using assms(2) by (simp add: list_all_length)
    then show ?thesis using that by (simp add: readCell_def)
  qed
  show ?thesis using r d n rd by auto
qed

lemma matrix_eqI:
  "dims a n k \<Longrightarrow> dims b n k \<Longrightarrow> (\<And>i j. i < n \<Longrightarrow> j < k \<Longrightarrow> a ! i ! j = b ! i ! j) \<Longrightarrow> a = b"
  by (rule nth_equalityI) (auto simp: dims_def list_all_length intro!: nth_equalityI)

lemma rotateTimes_four:
  assumes "sh \<noteq> []" and "0 < cols" and "list_all (\<lambda>row. length row = cols) sh"
  shows "rotateTimes 4 sh = Some sh"
proof -
  let ?rows = "length sh"
  have rows: "0 < ?rows" using assms(1) by simp
  from rotateShape_char [OF assms(1,3)]
  obtain r1 where r1: "rotateShape sh = Some r1" "dims r1 cols ?rows"
    and n1: "\<And>c j. c < cols \<Longrightarrow> j < ?rows \<Longrightarrow> r1 ! c ! j = sh ! (?rows - 1 - j) ! c"
    by blast
  have ne1: "r1 \<noteq> []" using r1(2) assms(2) by (auto simp: dims_def)
  have l1: "list_all (\<lambda>row. length row = ?rows) r1" "length r1 = cols"
    using r1(2) by (simp_all add: dims_def)
  from rotateShape_char [OF ne1 l1(1)] l1(2)
  obtain r2 where r2: "rotateShape r1 = Some r2" "dims r2 ?rows cols"
    and n2: "\<And>c j. c < ?rows \<Longrightarrow> j < cols \<Longrightarrow> r2 ! c ! j = r1 ! (cols - 1 - j) ! c"
    by auto
  have ne2: "r2 \<noteq> []" using r2(2) rows by (auto simp: dims_def)
  have l2: "list_all (\<lambda>row. length row = cols) r2" "length r2 = ?rows"
    using r2(2) by (simp_all add: dims_def)
  from rotateShape_char [OF ne2 l2(1)] l2(2)
  obtain r3 where r3: "rotateShape r2 = Some r3" "dims r3 cols ?rows"
    and n3: "\<And>c j. c < cols \<Longrightarrow> j < ?rows \<Longrightarrow> r3 ! c ! j = r2 ! (?rows - 1 - j) ! c"
    by auto
  have ne3: "r3 \<noteq> []" using r3(2) assms(2) by (auto simp: dims_def)
  have l3: "list_all (\<lambda>row. length row = ?rows) r3" "length r3 = cols"
    using r3(2) by (simp_all add: dims_def)
  from rotateShape_char [OF ne3 l3(1)] l3(2)
  obtain r4 where r4: "rotateShape r3 = Some r4" "dims r4 ?rows cols"
    and n4: "\<And>c j. c < ?rows \<Longrightarrow> j < cols \<Longrightarrow> r4 ! c ! j = r3 ! (cols - 1 - j) ! c"
    by auto
  have dsh: "dims sh ?rows cols" using assms(3) by (simp add: dims_def)
  have "r4 = sh"
  proof (rule matrix_eqI [OF r4(2) dsh])
    fix i j assume ij: "i < ?rows" "j < cols"
    have "r4 ! i ! j = r3 ! (cols - 1 - j) ! i" using ij by (rule n4)
    also have "\<dots> = r2 ! (?rows - 1 - i) ! (cols - 1 - j)" using ij by (intro n3) auto
    also have "\<dots> = r1 ! (cols - 1 - (cols - 1 - j)) ! (?rows - 1 - i)"
      using ij by (intro n2) auto
    also have "\<dots> = sh ! (?rows - 1 - (?rows - 1 - i)) ! (cols - 1 - (cols - 1 - j))"
      using ij by (intro n1) auto
    also have "\<dots> = sh ! i ! j" using ij by simp
    finally show "r4 ! i ! j = sh ! i ! j" .
  qed
  then show ?thesis
    using r1(1) r2(1) r3(1) r4(1) by (simp add: eval_nat_numeral)
qed


text \<open>
  C6. For a rectangular matrix with \<open>rows\<close> rows, \<open>rotateShape\<close> returns the matrix with
  \<open>rotated[c][rows - 1 - r] = shape[r][c]\<close> at every \<open>(r, c)\<close> of the matrix, and four
  rotations of a matrix whose rows are not empty give the matrix back.
\<close>

theorem rotateShape_clockwise_four_identity:
  assumes "sh \<noteq> []" and "list_all (\<lambda>row. length row = length (hd sh)) sh"
  shows "(\<exists>rot. rotateShape sh = Some rot \<and> dims rot (length (hd sh)) (length sh) \<and>
               (\<forall>r < length sh. \<forall>c < length (hd sh).
                  rot ! c ! (length sh - 1 - r) = sh ! r ! c)) \<and>
         (hd sh \<noteq> [] \<longrightarrow> rotateTimes 4 sh = Some sh)"
proof -
  from rotateShape_char [OF assms]
  obtain rot where rot: "rotateShape sh = Some rot" "dims rot (length (hd sh)) (length sh)"
    and n: "\<And>c j. c < length (hd sh) \<Longrightarrow> j < length sh \<Longrightarrow>
                 rot ! c ! j = sh ! (length sh - 1 - j) ! c"
    by blast
  have "rot ! c ! (length sh - 1 - r) = sh ! r ! c" if "r < length sh" "c < length (hd sh)" for r c
    using n [of c "length sh - 1 - r"] that by simp
  moreover have "rotateTimes 4 sh = Some sh" if "hd sh \<noteq> []"
    using rotateTimes_four [OF assms(1) _ assms(2)] that by simp
  ultimately show ?thesis using rot by blast
qed

theorem rotateShape_clockwise_four_identity_witness:
  "rotateShape shapeL = Some [[True, True, True], [True, False, False]] \<and>
   rotateTimes 4 shapeL = Some shapeL"
proof -
  have a: "shapeL \<noteq> []" "list_all (\<lambda>row. length row = length (hd shapeL)) shapeL"
    "hd shapeL \<noteq> []"
    by (simp_all add: shapeL_def)
  have "rotateShape shapeL = Some [[True, True, True], [True, False, False]]" by code_simp
  then show ?thesis
    using rotateShape_clockwise_four_identity [OF a(1,2)] a(3) by simp
qed

section \<open>Lemmas on the cell invariant\<close>

lemma cell_inv_writeCell:
  "cell_inv b \<Longrightarrow> cell_ok v \<Longrightarrow> cell_inv (writeCell b i j v)"
proof -
  assume b: "cell_inv b" and v: "cell_ok v"
  have row: "list_all cell_ok ((b ! i)[j := v])" if "i < length b"
  proof -
    have "list_all cell_ok (b ! i)"
      using b that by (simp add: cell_inv_def list_all_length)
    then show ?thesis
      using v set_update_subset_insert [of "b ! i" j v] by (auto simp: list_all_iff)
  qed
  show ?thesis
  proof (cases "i < length b")
    case True
    then show ?thesis
      using b row set_update_subset_insert [of b i "(b ! i)[j := v]"]
      by (auto simp: cell_inv_def writeCell_def list_all_iff)
  next
    case False
    then show ?thesis using b by (simp add: writeCell_def list_update_beyond)
  qed
qed

lemma cell_inv_createEmptyBoard: "cell_inv createEmptyBoard"
  by (simp add: cell_inv_def createEmptyBoard_def list_all_iff cell_ok_def emptyBlock_def)

lemma cell_inv_clearBlock: "cell_inv b \<Longrightarrow> cell_inv (clearBlock b p)"
  by (cases p) (simp add: clearBlock_def cell_inv_writeCell cell_ok_def)

lemma cell_inv_applyClear: "cell_inv b \<Longrightarrow> cell_inv (applyClear b blks)"
  unfolding applyClear_def
  by (induction blks arbitrary: b) (simp_all add: cell_inv_clearBlock)

lemma cell_inv_fillCells:
  "cell_inv b \<Longrightarrow> col \<noteq> 0 \<Longrightarrow> fillCells b startRow startCol col cells = Some b' \<Longrightarrow> cell_inv b'"
proof (induction cells arbitrary: b)
  case Nil
  then show ?case by simp
next
  case (Cons p cells)
  obtain r c where p: "p = (r, c)" by (cases p)
  from Cons.prems(3) obtain blk where
    blk: "blockAt b (startRow + int r) (startCol + int c) = Some blk"
    and rest: "fillCells (writeCell b (nat (startRow + int r)) (nat (startCol + int c))
                       (blk\<lparr> isEmpty := False, color := col \<rparr>)) startRow startCol col cells = Some b'"
    by (auto simp: p split: bind_splits)
  have "cell_ok (blk\<lparr> isEmpty := False, color := col \<rparr>)"
    using Cons.prems(2) by (simp add: cell_ok_def)
  then show ?case using Cons.IH [OF _ Cons.prems(2) rest] Cons.prems(1)
    by (simp add: cell_inv_writeCell)
qed

lemma zero_notin_BLOCK_COLORS: "0 \<notin> set BLOCK_COLORS"
  by (simp add: BLOCK_COLORS_def)

lemma checkLines_board:
  "checkLines st = Some st' \<Longrightarrow> gameBoard st' = gameBoard st \<and> shapes st' = shapes st"
  by (auto simp: checkLines_def Let_def gameOver_def updateScore_def clearLines_def
           split: bind_splits if_splits)

lemma colour_inv_checkLines: "colour_inv st \<Longrightarrow> checkLines st = Some st' \<Longrightarrow> colour_inv st'"
  using checkLines_board [of st st'] by (simp add: colour_inv_def)

lemma colour_inv_placeShape:
  assumes "colour_inv st" and "shape_color s \<in> set BLOCK_COLORS"
    and "placeShape st row col s = Some st'"
  shows "colour_inv st'"
proof -
  from assms(3) obtain b' where
    b': "fillCells (gameBoard st) row col (shape_color s) (shapeCells (blocks s)) = Some b'"
    and cl: "checkLines (st\<lparr> gameBoard := b' \<rparr>) = Some st'"
    by (auto simp: placeShape_def split: bind_splits)
  have "shape_color s \<noteq> 0" using assms(2) zero_notin_BLOCK_COLORS by auto
  then have "cell_inv b'" using cell_inv_fillCells [OF _ _ b'] assms(1) by (simp add: colour_inv_def)
  then have "colour_inv (st\<lparr> gameBoard := b' \<rparr>)" using assms(1) by (simp add: colour_inv_def)
  then show ?thesis using cl by (rule colour_inv_checkLines)
qed

lemma makeShape_color: "makeShape d = Some s \<Longrightarrow> shape_color s \<in> set BLOCK_COLORS"
proof -
  have "0 < length BLOCK_COLORS" by (simp add: BLOCK_COLORS_def)
  then have "BLOCK_COLORS ! (c mod length BLOCK_COLORS) \<in> set BLOCK_COLORS" for c
    by (intro nth_mem) simp
  moreover assume "makeShape d = Some s"
  ultimately show ?thesis
    by (auto simp: makeShape_def split: prod.splits bind_splits list.splits)
qed

lemma those_map_all:
  "those (map f xs) = Some ys \<Longrightarrow> (\<And>x y. f x = Some y \<Longrightarrow> P y) \<Longrightarrow> list_all P ys"
proof (induction xs arbitrary: ys)
  case Nil
  then show ?case by simp
next
  case (Cons x xs)
  then show ?case by (auto split: option.splits)
qed

lemma colour_inv_gameOver: "colour_inv (gameOver st) = colour_inv st"
  by (simp add: colour_inv_def gameOver_def)

lemma colour_inv_generateNewShapes:
  assumes "colour_inv st" and "generateNewShapes draws st = Some st'"
  shows "colour_inv st'"
proof (cases "isGameOver st \<or> length (shapes st) > 0")
  case True
  then show ?thesis using assms by (auto simp: generateNewShapes_def split: if_splits)
next
  case False
  from assms(2) False obtain new where
    new: "those (map (\<lambda>i. makeShape (draws i)) [0..<3]) = Some new"
    and st': "st' = st\<lparr> shapes := shapes st @ new \<rparr> \<or> st' = gameOver (st\<lparr> shapes := shapes st @ new \<rparr>)"
    by (auto simp: generateNewShapes_def Let_def split: bind_splits if_splits)
  have "list_all (\<lambda>s. shape_color s \<in> set BLOCK_COLORS) new"
    using those_map_all [OF new, of "\<lambda>s. shape_color s \<in> set BLOCK_COLORS"] makeShape_color
    by blast
  then have "colour_inv (st\<lparr> shapes := shapes st @ new \<rparr>)"
    using assms(1) by (simp add: colour_inv_def)
  then show ?thesis using st' by (auto simp: colour_inv_gameOver)
qed

lemma list_all_removeAt: "list_all P xs \<Longrightarrow> list_all P (removeAt i xs)"
  by (auto simp: removeAt_def list_all_iff dest: in_set_takeD in_set_dropD)

lemma colour_inv_onDragEnd:
  assumes "colour_inv st" and "onDragEnd draws st i row col = Some st'"
  shows "colour_inv st'"
proof (cases "i \<ge> length (shapes st) \<or> isGameOver st")
  case True
  then show ?thesis using assms by (auto simp: onDragEnd_def)
next
  case False
  then have i: "i < length (shapes st)" by simp
  have c: "shape_color (shapes st ! i) \<in> set BLOCK_COLORS"
    using assms(1) i by (simp add: colour_inv_def list_all_length)
  from assms(2) False obtain ok where ok: "canPlaceShape (gameBoard st) row col (shapes st ! i) = Some ok"
    by (auto simp: onDragEnd_def split: bind_splits)
  show ?thesis
  proof (cases ok)
    case False
    then show ?thesis using assms ok \<open>\<not> (i \<ge> length (shapes st) \<or> isGameOver st)\<close>
      by (auto simp: onDragEnd_def)
  next
    case True
    from assms(2) ok True \<open>\<not> (i \<ge> length (shapes st) \<or> isGameOver st)\<close>
    obtain st1 st3 where st1: "placeShape st row col (shapes st ! i) = Some st1"
      and st3: "checkLines (st1\<lparr> shapes := removeAt i (shapes st1) \<rparr>) = Some st3"
      and fin: "(if length (shapes st3) = 0 then generateNewShapes draws st3 else Some st3) = Some st'"
      by (auto simp: onDragEnd_def Let_def split: bind_splits)
    have p1: "colour_inv st1" using assms(1) c st1 by (rule colour_inv_placeShape)
    then have "colour_inv (st1\<lparr> shapes := removeAt i (shapes st1) \<rparr>)"
      by (simp add: colour_inv_def list_all_removeAt)
    then have p3: "colour_inv st3" using st3 by (rule colour_inv_checkLines)
    show ?thesis using fin p3 colour_inv_generateNewShapes [OF p3]
      by (auto split: if_splits)
  qed
qed

lemma colour_inv_completeClear:
  assumes "colour_inv st" and "completeClear st = Some st'"
  shows "colour_inv st'"
proof (cases "pendingClears st")
  case Nil
  then show ?thesis using assms by (simp add: completeClear_def)
next
  case (Cons blks rest)
  let ?st1 = "st\<lparr> gameBoard := applyClear (gameBoard st) blks, pendingClears := rest \<rparr>"
  have "colour_inv ?st1" using assms(1) by (simp add: colour_inv_def cell_inv_applyClear)
  moreover have "st' = ?st1 \<or> st' = gameOver ?st1"
    using assms(2) Cons by (auto simp: completeClear_def checkGameOver_def split: bind_splits if_splits)
  ultimately show ?thesis by (auto simp: colour_inv_gameOver)
qed

lemma colour_inv_startGame:
  assumes "colour_inv st" and "startGame draws st = Some st'"
  shows "colour_inv st'"
proof -
  have "colour_inv (st\<lparr> currentState := PLAYING, gameBoard := createEmptyBoard,
                       pendingClears := map (\<lambda>blks. []) (pendingClears st) \<rparr>)"
    using assms(1) by (simp add: colour_inv_def cell_inv_createEmptyBoard)
  then show ?thesis using assms(2) unfolding startGame_def by (rule colour_inv_generateNewShapes)
qed

lemma colour_inv_resetGame: "colour_inv st \<Longrightarrow> colour_inv (resetGame st)"
  by (simp add: colour_inv_def resetGame_def)

lemma colour_inv_onPlaceShape:
  assumes "colour_inv st" and "i < length (shapes st)"
    and "onPlaceShape draws st row col i = Some st'"
  shows "colour_inv st'"
proof -
  have c: "shape_color (shapes st ! i) \<in> set BLOCK_COLORS"
    using assms(1,2) by (simp add: colour_inv_def list_all_length)
  from assms(3)
  obtain st1 st2 where st1: "placeShape st row col (shapes st ! i) = Some st1"
    and st2: "checkLines st1 = Some st2"
    and fin: "(let st3 = (if i < length (shapes st2)
                     then st2\<lparr> shapes := removeAt i (shapes st2) \<rparr> else st2)
               in if length (shapes st3) = 0 then generateNewShapes draws st3 else Some st3) = Some st'"
    by (auto simp: onPlaceShape_def split: bind_splits)
  have p1: "colour_inv st1" using assms(1) c st1 by (rule colour_inv_placeShape)
  then have p2: "colour_inv st2" using st2 by (rule colour_inv_checkLines)
  define st3 where "st3 = (if i < length (shapes st2)
                     then st2\<lparr> shapes := removeAt i (shapes st2) \<rparr> else st2)"
  have p3: "colour_inv st3" using p2 by (simp add: st3_def colour_inv_def list_all_removeAt)
  from fin have "(if length (shapes st3) = 0 then generateNewShapes draws st3 else Some st3) = Some st'"
    unfolding Let_def st3_def [symmetric] .
  then show ?thesis using p3 colour_inv_generateNewShapes [OF p3]
    by (auto split: if_splits)
qed

section \<open>Lemmas on the heuristic search\<close>

lemma those_map_total:
  "\<forall>x \<in> set xs. f x = Some (g x) \<Longrightarrow> those (map f xs) = Some (map g xs)"
  by (induction xs) auto

lemma filledGrid_total:
  assumes "board_ok b"
  shows "filledGrid b =
           Some (map (\<lambda>r. map (\<lambda>c. \<not> isEmpty (b ! r ! c)) [0..<GRID_SIZE]) [0..<GRID_SIZE])"
proof -
  have inner: "those (map (\<lambda>c. map_option (\<lambda>blk. \<not> isEmpty blk) (blockAt b (int r) (int c)))
                        [0..<GRID_SIZE])
                 = Some (map (\<lambda>c. \<not> isEmpty (b ! r ! c)) [0..<GRID_SIZE])"
    if "r < GRID_SIZE" for r
    using that by (intro those_map_total) (simp add: blockAt_in_range [OF assms])
  show ?thesis
    unfolding filledGrid_def by (rule those_map_total) (simp add: inner)
qed

lemma markCells_total:
  "\<forall>(r, c) \<in> set cells. 0 \<le> row + int r \<and> row + int r < int (length g) \<Longrightarrow>
   \<exists>g'. markCells g row col cells = Some g'"
proof (induction cells arbitrary: g)
  case Nil
  then show ?case by simp
next
  case (Cons p cells)
  obtain r c where p: "p = (r, c)" by (cases p)
  show ?case
    using Cons.prems Cons.IH [of "writeCell g (nat (row + int r)) (nat (col + int c)) True"]
      Cons.IH [of g]
    by (auto simp: p)
qed

lemma touching_total:
  "board_ok b \<Longrightarrow> \<exists>res. touching b ns acc = Some res"
proof (induction ns arbitrary: acc)
  case Nil
  then show ?case by simp
next
  case (Cons n ns)
  obtain newRow newCol where n: "n = (newRow, newCol)" by (cases n)
  obtain tb te where acc: "acc = (tb, te)" by (cases acc)
  show ?case
  proof (cases "newRow \<ge> 0 \<and> newRow < int GRID_SIZE \<and> newCol \<ge> 0 \<and> newCol < int GRID_SIZE")
    case True
    then have "blockAt b newRow newCol = Some (b ! nat newRow ! nat newCol)"
      using Cons.prems by (intro blockAt_in_range) auto
    then show ?thesis using True Cons.IH [OF Cons.prems] by (simp add: n acc)
  next
    case False
    have "touching b (n # ns) acc = touching b ns (tb, te + 1)"
      using False by (auto simp: n acc)
    then show ?thesis using Cons.IH [OF Cons.prems] by simp
  qed
qed

lemma moveScore_total:
  assumes b: "board_ok b" and s: "shape_ok s"
    and can: "canPlaceShape b (int row) (int col) s = Some True"
  shows "\<exists>sc. moveScore b s row col = Some sc"
proof -
  from can canPlaceShape_char [OF b s, of "int row" "int col"]
  have bound: "int row + int (height s) \<le> int GRID_SIZE" by auto
  have h: "height s = length (blocks s)" using s by (simp add: shape_ok_def)
  let ?g = "map (\<lambda>r. map (\<lambda>c. \<not> isEmpty (b ! r ! c)) [0..<GRID_SIZE]) [0..<GRID_SIZE]"
  have "\<forall>(r, c) \<in> set (shapeCells (blocks s)).
           0 \<le> int row + int r \<and> int row + int r < int (length ?g)"
    using bound h by (auto simp: set_shapeCells)
  from markCells_total [OF this]
  obtain g' where "markCells ?g (int row) (int col) (shapeCells (blocks s)) = Some g'" by blast
  then have sim: "simulatePlacement b (int row) (int col) s = Some g'"
    by (simp add: simulatePlacement_def filledGrid_total [OF b])
  obtain cl gp where lt: "lineTotals g' = (cl, gp)" by (cases "lineTotals g'")
  from touching_total [OF b]
  obtain tb te where
    "touching b (neighbours (int row) (int col) (shapeCells (blocks s))) (0, 0) = Some (tb, te)"
    by (metis surj_pair)
  then show ?thesis by (simp add: moveScore_def sim lt)
qed

lemma gt_Num_less: "gt (Num a) x \<Longrightarrow> \<not> gt (Num c) x \<Longrightarrow> c < a"
  by (cases x) auto

lemma gt_Num_trans: "gt (Num a) (Num c) \<Longrightarrow> gt (Num c) x \<Longrightarrow> gt (Num a) x"
  by (cases x) auto

lemma not_gt_mono: "\<not> gt (Num c) x \<Longrightarrow> a \<le> c \<Longrightarrow> \<not> gt (Num a) x"
  by (cases x) auto

lemma scanMoves_char:
  assumes b: "board_ok b" and s: "shape_ok s"
  shows "\<exists>bs' br' bc'.
           scanMoves b s ps (bs, br, bc, f)
             = Some (bs', br', bc', f \<or> filter (validAt b s) ps \<noteq> []) \<and>
           (((\<forall>q \<in> set (filter (validAt b s) ps). \<not> gt (Num (scoreAt b s q)) bs) \<and>
             bs' = bs \<and> br' = br \<and> bc' = bc) \<or>
            (\<exists>pre p post.
               filter (validAt b s) ps = pre @ p # post \<and>
               bs' = Num (scoreAt b s p) \<and> br' = int (fst p) \<and> bc' = int (snd p) \<and>
               gt bs' bs \<and>
               (\<forall>q \<in> set pre. scoreAt b s q < scoreAt b s p) \<and>
               (\<forall>q \<in> set post. scoreAt b s q \<le> scoreAt b s p)))"
proof (induction ps arbitrary: bs br bc f)
  case Nil
  then show ?case by simp
next
  case (Cons p0 ps)
  obtain row col where p0: "p0 = (row, col)" by (cases p0)
  let ?V = "filter (validAt b s) ps"
  show ?case
  proof (cases "validAt b s p0")
    case False
    obtain v where "canPlaceShape b (int row) (int col) s = Some v"
      using canPlaceShape_char [OF b s] by blast
    with False have cp: "canPlaceShape b (int row) (int col) s = Some False"
      by (cases v) (auto simp: validAt_def p0)
    have step: "scanMoves b s (p0 # ps) (bs, br, bc, f) = scanMoves b s ps (bs, br, bc, f)"
      by (simp add: p0 cp)
    show ?thesis unfolding step using Cons.IH [of bs br bc f] False by simp
  next
    case True
    then have cp: "canPlaceShape b (int row) (int col) s = Some True"
      by (simp add: validAt_def p0)
    from moveScore_total [OF b s cp] obtain sc where ms: "moveScore b s row col = Some sc"
      by blast
    have sc: "scoreAt b s p0 = sc" by (simp add: scoreAt_def p0 ms)
    have V: "filter (validAt b s) (p0 # ps) = p0 # ?V" using True by simp
    show ?thesis
    proof (cases "gt (Num sc) bs")
      case gt: True
      have step: "scanMoves b s (p0 # ps) (bs, br, bc, f)
                    = scanMoves b s ps (Num sc, int row, int col, True)"
        using gt by (simp add: p0 cp ms)
      have "\<exists>bs' br' bc'.
          scanMoves b s ps (Num sc, int row, int col, True) = Some (bs', br', bc', True) \<and>
          (((\<forall>q \<in> set ?V. \<not> gt (Num (scoreAt b s q)) (Num sc)) \<and>
                   bs' = Num sc \<and> br' = int row \<and> bc' = int col) \<or>
                  (\<exists>pre p post. ?V = pre @ p # post \<and>
                     bs' = Num (scoreAt b s p) \<and> br' = int (fst p) \<and> bc' = int (snd p) \<and>
                     gt bs' (Num sc) \<and>
                     (\<forall>q \<in> set pre. scoreAt b s q < scoreAt b s p) \<and>
                     (\<forall>q \<in> set post. scoreAt b s q \<le> scoreAt b s p)))"
        using Cons.IH [of "Num sc" "int row" "int col" True] by simp
      then obtain bs' br' bc' where
        res: "scanMoves b s ps (Num sc, int row, int col, True) = Some (bs', br', bc', True)"
        and alt: "((\<forall>q \<in> set ?V. \<not> gt (Num (scoreAt b s q)) (Num sc)) \<and>
                   bs' = Num sc \<and> br' = int row \<and> bc' = int col) \<or>
                  (\<exists>pre p post. ?V = pre @ p # post \<and>
                     bs' = Num (scoreAt b s p) \<and> br' = int (fst p) \<and> bc' = int (snd p) \<and>
                     gt bs' (Num sc) \<and>
                     (\<forall>q \<in> set pre. scoreAt b s q < scoreAt b s p) \<and>
                     (\<forall>q \<in> set post. scoreAt b s q \<le> scoreAt b s p))"
        by blast
      from alt have "\<exists>pre p post.
               p0 # ?V = pre @ p # post \<and>
               bs' = Num (scoreAt b s p) \<and> br' = int (fst p) \<and> bc' = int (snd p) \<and>
               gt bs' bs \<and>
               (\<forall>q \<in> set pre. scoreAt b s q < scoreAt b s p) \<and>
               (\<forall>q \<in> set post. scoreAt b s q \<le> scoreAt b s p)"
      proof
        assume a: "(\<forall>q \<in> set ?V. \<not> gt (Num (scoreAt b s q)) (Num sc)) \<and>
                   bs' = Num sc \<and> br' = int row \<and> bc' = int col"
        have "p0 # ?V = [] @ p0 # ?V" by simp
        moreover have "\<forall>q \<in> set ?V. scoreAt b s q \<le> scoreAt b s p0"
          using a sc by (auto simp: not_less)
        ultimately show ?thesis using a gt sc p0 by (intro exI [of _ "[]"] exI [of _ p0] exI [of _ ?V]) auto
      next
        assume "\<exists>pre p post. ?V = pre @ p # post \<and>
                     bs' = Num (scoreAt b s p) \<and> br' = int (fst p) \<and> bc' = int (snd p) \<and>
                     gt bs' (Num sc) \<and>
                     (\<forall>q \<in> set pre. scoreAt b s q < scoreAt b s p) \<and>
                     (\<forall>q \<in> set post. scoreAt b s q \<le> scoreAt b s p)"
        then obtain pre p post where
          d: "?V = pre @ p # post" "bs' = Num (scoreAt b s p)" "br' = int (fst p)"
             "bc' = int (snd p)" "gt bs' (Num sc)"
             "\<forall>q \<in> set pre. scoreAt b s q < scoreAt b s p"
             "\<forall>q \<in> set post. scoreAt b s q \<le> scoreAt b s p"
          by blast
        have "p0 # ?V = (p0 # pre) @ p # post" using d(1) by simp
        moreover have "scoreAt b s p0 < scoreAt b s p" using d(2,5) sc by simp
        moreover have "gt bs' bs" using d(2,5) gt gt_Num_trans by simp
        ultimately show ?thesis using d
          by (intro exI [of _ "p0 # pre"] exI [of _ p] exI [of _ post]) auto
      qed
      then show ?thesis unfolding step V using res by auto
    next
      case ngt: False
      have step: "scanMoves b s (p0 # ps) (bs, br, bc, f)
                    = scanMoves b s ps (bs, br, bc, True)"
        using ngt by (simp add: p0 cp ms)
      have "\<exists>bs' br' bc'.
          scanMoves b s ps (bs, br, bc, True) = Some (bs', br', bc', True) \<and>
          (((\<forall>q \<in> set ?V. \<not> gt (Num (scoreAt b s q)) bs) \<and>
                   bs' = bs \<and> br' = br \<and> bc' = bc) \<or>
                  (\<exists>pre p post. ?V = pre @ p # post \<and>
                     bs' = Num (scoreAt b s p) \<and> br' = int (fst p) \<and> bc' = int (snd p) \<and>
                     gt bs' bs \<and>
                     (\<forall>q \<in> set pre. scoreAt b s q < scoreAt b s p) \<and>
                     (\<forall>q \<in> set post. scoreAt b s q \<le> scoreAt b s p)))"
        using Cons.IH [of bs br bc True] by simp
      then obtain bs' br' bc' where
        res: "scanMoves b s ps (bs, br, bc, True) = Some (bs', br', bc', True)"
        and alt: "((\<forall>q \<in> set ?V. \<not> gt (Num (scoreAt b s q)) bs) \<and>
                   bs' = bs \<and> br' = br \<and> bc' = bc) \<or>
                  (\<exists>pre p post. ?V = pre @ p # post \<and>
                     bs' = Num (scoreAt b s p) \<and> br' = int (fst p) \<and> bc' = int (snd p) \<and>
                     gt bs' bs \<and>
                     (\<forall>q \<in> set pre. scoreAt b s q < scoreAt b s p) \<and>
                     (\<forall>q \<in> set post. scoreAt b s q \<le> scoreAt b s p))"
        by blast
      from alt have "((\<forall>q \<in> set (p0 # ?V). \<not> gt (Num (scoreAt b s q)) bs) \<and>
                   bs' = bs \<and> br' = br \<and> bc' = bc) \<or>
                  (\<exists>pre p post. p0 # ?V = pre @ p # post \<and>
                     bs' = Num (scoreAt b s p) \<and> br' = int (fst p) \<and> bc' = int (snd p) \<and>
                     gt bs' bs \<and>
                     (\<forall>q \<in> set pre. scoreAt b s q < scoreAt b s p) \<and>
                     (\<forall>q \<in> set post. scoreAt b s q \<le> scoreAt b s p))"
      proof
        assume "(\<forall>q \<in> set ?V. \<not> gt (Num (scoreAt b s q)) bs) \<and>
                   bs' = bs \<and> br' = br \<and> bc' = bc"
        then show ?thesis using ngt sc by auto
      next
        assume "\<exists>pre p post. ?V = pre @ p # post \<and>
                     bs' = Num (scoreAt b s p) \<and> br' = int (fst p) \<and> bc' = int (snd p) \<and>
                     gt bs' bs \<and>
                     (\<forall>q \<in> set pre. scoreAt b s q < scoreAt b s p) \<and>
                     (\<forall>q \<in> set post. scoreAt b s q \<le> scoreAt b s p)"
        then obtain pre p post where
          d: "?V = pre @ p # post" "bs' = Num (scoreAt b s p)" "br' = int (fst p)"
             "bc' = int (snd p)" "gt bs' bs"
             "\<forall>q \<in> set pre. scoreAt b s q < scoreAt b s p"
             "\<forall>q \<in> set post. scoreAt b s q \<le> scoreAt b s p"
          by blast
        have "p0 # ?V = (p0 # pre) @ p # post" using d(1) by simp
        moreover have "scoreAt b s p0 < scoreAt b s p"
          using gt_Num_less [of "scoreAt b s p" bs sc] d(2,5) ngt sc by simp
        ultimately have "\<exists>pre p post. p0 # ?V = pre @ p # post \<and>
                     bs' = Num (scoreAt b s p) \<and> br' = int (fst p) \<and> bc' = int (snd p) \<and>
                     gt bs' bs \<and>
                     (\<forall>q \<in> set pre. scoreAt b s q < scoreAt b s p) \<and>
                     (\<forall>q \<in> set post. scoreAt b s q \<le> scoreAt b s p)"
          using d by (intro exI [of _ "p0 # pre"] exI [of _ p] exI [of _ post]) auto
        then show ?thesis ..
      qed
      then show ?thesis unfolding step V using res by auto
    qed
  qed
qed

lemma findBestMove_char:
  assumes b: "board_ok b" and s: "shape_ok s"
  shows "(filter (validAt b s) gridPositions = [] \<and> findBestMove b s = Some noMove) \<or>
         (\<exists>pre p post.
            filter (validAt b s) gridPositions = pre @ p # post \<and>
            findBestMove b s = Some (bestOf p (scoreAt b s p)) \<and>
            (\<forall>q \<in> set pre. scoreAt b s q < scoreAt b s p) \<and>
            (\<forall>q \<in> set post. scoreAt b s q \<le> scoreAt b s p))"
proof -
  let ?V = "filter (validAt b s) gridPositions"
  from scanMoves_char [OF b s, of gridPositions NegInfinity 0 0 False]
  obtain bs' br' bc' where
    res: "scanMoves b s gridPositions (NegInfinity, 0, 0, False) = Some (bs', br', bc', ?V \<noteq> [])"
    and alt: "((\<forall>q \<in> set ?V. \<not> gt (Num (scoreAt b s q)) NegInfinity) \<and>
               bs' = NegInfinity \<and> br' = 0 \<and> bc' = 0) \<or>
              (\<exists>pre p post. ?V = pre @ p # post \<and>
                 bs' = Num (scoreAt b s p) \<and> br' = int (fst p) \<and> bc' = int (snd p) \<and>
                 gt bs' NegInfinity \<and>
                 (\<forall>q \<in> set pre. scoreAt b s q < scoreAt b s p) \<and>
                 (\<forall>q \<in> set post. scoreAt b s q \<le> scoreAt b s p))"
    by (simp only: simp_thms) blast
  from alt show ?thesis
  proof
    assume a: "(\<forall>q \<in> set ?V. \<not> gt (Num (scoreAt b s q)) NegInfinity) \<and>
               bs' = NegInfinity \<and> br' = 0 \<and> bc' = 0"
    then have "?V = []" by (cases ?V) auto
    then show ?thesis using res by (simp add: findBestMove_def noMove_def)
  next
    assume "\<exists>pre p post. ?V = pre @ p # post \<and>
                 bs' = Num (scoreAt b s p) \<and> br' = int (fst p) \<and> bc' = int (snd p) \<and>
                 gt bs' NegInfinity \<and>
                 (\<forall>q \<in> set pre. scoreAt b s q < scoreAt b s p) \<and>
                 (\<forall>q \<in> set post. scoreAt b s q \<le> scoreAt b s p)"
    then obtain pre p post where
      d: "?V = pre @ p # post" "bs' = Num (scoreAt b s p)" "br' = int (fst p)"
         "bc' = int (snd p)"
         "\<forall>q \<in> set pre. scoreAt b s q < scoreAt b s p"
         "\<forall>q \<in> set post. scoreAt b s q \<le> scoreAt b s p"
      by blast
    have "findBestMove b s = Some (bestOf p (scoreAt b s p))"
      using res d(1-4) by (simp add: findBestMove_def bestOf_def)
    then show ?thesis using d(1,5,6) by blast
  qed
qed

lemma candsOf_Cons:
  "candsOf b shs (i # js)
     = map (\<lambda>p. (i, p)) (filter (validAt b (shs ! i)) gridPositions) @ candsOf b shs js"
  by (simp add: candsOf_def)

lemma pickShape_char:
  assumes b: "board_ok b" and shs: "list_all shape_ok shs"
  shows "\<forall>i \<in> set js. i < length shs \<Longrightarrow>
         \<exists>bsh' bm'.
           pickShape b (map (\<lambda>i. (i, shs ! i)) js) (bsh, bm) = Some (bsh', bm') \<and>
           (((\<forall>q \<in> set (candsOf b shs js). \<not> gt (Num (candScore b shs q)) (move_score bm)) \<and>
             bsh' = bsh \<and> bm' = bm) \<or>
            (\<exists>pre i p post.
               candsOf b shs js = pre @ (i, p) # post \<and>
               bsh' = Some i \<and> bm' = bestOf p (candScore b shs (i, p)) \<and>
               gt (move_score bm') (move_score bm) \<and>
               (\<forall>q \<in> set pre. candScore b shs q < candScore b shs (i, p)) \<and>
               (\<forall>q \<in> set post. candScore b shs q \<le> candScore b shs (i, p))))"
proof (induction js arbitrary: bsh bm)
  case Nil
  then show ?case by (simp add: candsOf_def)
next
  case (Cons i0 js)
  let ?s0 = "shs ! i0"
  let ?V0 = "filter (validAt b ?s0) gridPositions"
  let ?C = "candsOf b shs js"
  have i0: "i0 < length shs" and js: "\<forall>i \<in> set js. i < length shs" using Cons.prems by auto
  have s0: "shape_ok ?s0" using shs i0 by (simp add: list_all_length)
  have cs0: "candScore b shs (i0, p) = scoreAt b ?s0 p" for p by (simp add: candScore_def)
  have C: "candsOf b shs (i0 # js) = map (\<lambda>p. (i0, p)) ?V0 @ ?C" by (rule candsOf_Cons)
  note IH = Cons.IH [OF js]
  from findBestMove_char [OF b s0] show ?case
  proof
    assume a: "?V0 = [] \<and> findBestMove b ?s0 = Some noMove"
    then have step: "pickShape b (map (\<lambda>i. (i, shs ! i)) (i0 # js)) (bsh, bm)
                  = pickShape b (map (\<lambda>i. (i, shs ! i)) js) (bsh, bm)"
      by (simp add: noMove_def)
    show ?thesis unfolding step C using IH [of bsh bm] a by simp
  next
    assume "\<exists>pre p post. ?V0 = pre @ p # post \<and>
              findBestMove b ?s0 = Some (bestOf p (scoreAt b ?s0 p)) \<and>
              (\<forall>q \<in> set pre. scoreAt b ?s0 q < scoreAt b ?s0 p) \<and>
              (\<forall>q \<in> set post. scoreAt b ?s0 q \<le> scoreAt b ?s0 p)"
    then obtain pre0 p0 post0 where
      V0: "?V0 = pre0 @ p0 # post0"
      and fb: "findBestMove b ?s0 = Some (bestOf p0 (scoreAt b ?s0 p0))"
      and lt0: "\<forall>q \<in> set pre0. scoreAt b ?s0 q < scoreAt b ?s0 p0"
      and le0: "\<forall>q \<in> set post0. scoreAt b ?s0 q \<le> scoreAt b ?s0 p0"
      by blast
    let ?sc0 = "scoreAt b ?s0 p0"
    let ?m0 = "bestOf p0 ?sc0"
    have all0: "\<forall>q \<in> set (map (\<lambda>p. (i0, p)) ?V0). candScore b shs q \<le> ?sc0"
      using lt0 le0 by (auto simp: V0 cs0 less_imp_le)
    show ?thesis
    proof (cases "gt (Num ?sc0) (move_score bm)")
      case gt: True
      have step: "pickShape b (map (\<lambda>i. (i, shs ! i)) (i0 # js)) (bsh, bm)
                  = pickShape b (map (\<lambda>i. (i, shs ! i)) js) (Some i0, ?m0)"
        using gt by (simp add: fb bestOf_def)
      from IH [of "Some i0" ?m0]
      obtain bsh' bm' where
        res: "pickShape b (map (\<lambda>i. (i, shs ! i)) js) (Some i0, ?m0) = Some (bsh', bm')"
        and alt: "((\<forall>q \<in> set ?C. \<not> gt (Num (candScore b shs q)) (Num ?sc0)) \<and>
                   bsh' = Some i0 \<and> bm' = ?m0) \<or>
                  (\<exists>pre i p post. ?C = pre @ (i, p) # post \<and>
                     bsh' = Some i \<and> bm' = bestOf p (candScore b shs (i, p)) \<and>
                     gt (move_score bm') (Num ?sc0) \<and>
                     (\<forall>q \<in> set pre. candScore b shs q < candScore b shs (i, p)) \<and>
                     (\<forall>q \<in> set post. candScore b shs q \<le> candScore b shs (i, p)))"
        by (simp only: bestOf_def move.simps) blast
      from alt have "\<exists>pre i p post.
               map (\<lambda>p. (i0, p)) ?V0 @ ?C = pre @ (i, p) # post \<and>
               bsh' = Some i \<and> bm' = bestOf p (candScore b shs (i, p)) \<and>
               gt (move_score bm') (move_score bm) \<and>
               (\<forall>q \<in> set pre. candScore b shs q < candScore b shs (i, p)) \<and>
               (\<forall>q \<in> set post. candScore b shs q \<le> candScore b shs (i, p))"
      proof
        assume a: "(\<forall>q \<in> set ?C. \<not> gt (Num (candScore b shs q)) (Num ?sc0)) \<and>
                   bsh' = Some i0 \<and> bm' = ?m0"
        have "map (\<lambda>p. (i0, p)) ?V0 @ ?C
                = map (\<lambda>p. (i0, p)) pre0 @ (i0, p0) # (map (\<lambda>p. (i0, p)) post0 @ ?C)"
          by (simp add: V0)
        moreover have "\<forall>q \<in> set (map (\<lambda>p. (i0, p)) pre0). candScore b shs q < candScore b shs (i0, p0)"
          using lt0 by (auto simp: cs0)
        moreover have "\<forall>q \<in> set (map (\<lambda>p. (i0, p)) post0 @ ?C).
                          candScore b shs q \<le> candScore b shs (i0, p0)"
          using le0 a by (auto simp: cs0 not_less)
        moreover have "gt (move_score bm') (move_score bm)" using a gt by (simp add: bestOf_def)
        ultimately show ?thesis using a
          by (intro exI [of _ "map (\<lambda>p. (i0, p)) pre0"] exI [of _ i0] exI [of _ p0]
                exI [of _ "map (\<lambda>p. (i0, p)) post0 @ ?C"]) (simp add: cs0)
      next
        assume "\<exists>pre i p post. ?C = pre @ (i, p) # post \<and>
                     bsh' = Some i \<and> bm' = bestOf p (candScore b shs (i, p)) \<and>
                     gt (move_score bm') (Num ?sc0) \<and>
                     (\<forall>q \<in> set pre. candScore b shs q < candScore b shs (i, p)) \<and>
                     (\<forall>q \<in> set post. candScore b shs q \<le> candScore b shs (i, p))"
        then obtain pre i p post where
          d: "?C = pre @ (i, p) # post" "bsh' = Some i" "bm' = bestOf p (candScore b shs (i, p))"
             "gt (move_score bm') (Num ?sc0)"
             "\<forall>q \<in> set pre. candScore b shs q < candScore b shs (i, p)"
             "\<forall>q \<in> set post. candScore b shs q \<le> candScore b shs (i, p)"
          by blast
        have big: "?sc0 < candScore b shs (i, p)" using d(3,4) by (simp add: bestOf_def)
        have "map (\<lambda>p. (i0, p)) ?V0 @ ?C = (map (\<lambda>p. (i0, p)) ?V0 @ pre) @ (i, p) # post"
          using d(1) by simp
        moreover have "\<forall>q \<in> set (map (\<lambda>p. (i0, p)) ?V0 @ pre).
                         candScore b shs q < candScore b shs (i, p)"
        proof -
          have "candScore b shs q < candScore b shs (i, p)"
            if "q \<in> set (map (\<lambda>p. (i0, p)) ?V0)" for q
            using all0 big that le_less_trans by blast
          then show ?thesis using d(5) by (simp only: set_append) blast
        qed
        moreover have "gt (move_score bm') (move_score bm)"
          using d(3,4) gt gt_Num_trans [of "candScore b shs (i, p)" ?sc0 "move_score bm"]
          by (simp add: bestOf_def)
        ultimately show ?thesis using d(2,3,6)
          by (intro exI [of _ "map (\<lambda>p. (i0, p)) ?V0 @ pre"] exI [of _ i] exI [of _ p]
                exI [of _ post]) simp
      qed
      then show ?thesis unfolding step C using res by blast
    next
      case ngt: False
      have step: "pickShape b (map (\<lambda>i. (i, shs ! i)) (i0 # js)) (bsh, bm)
                  = pickShape b (map (\<lambda>i. (i, shs ! i)) js) (bsh, bm)"
        using ngt by (simp add: fb bestOf_def)
      from IH [of bsh bm]
      obtain bsh' bm' where
        res: "pickShape b (map (\<lambda>i. (i, shs ! i)) js) (bsh, bm) = Some (bsh', bm')"
        and alt: "((\<forall>q \<in> set ?C. \<not> gt (Num (candScore b shs q)) (move_score bm)) \<and>
                   bsh' = bsh \<and> bm' = bm) \<or>
                  (\<exists>pre i p post. ?C = pre @ (i, p) # post \<and>
                     bsh' = Some i \<and> bm' = bestOf p (candScore b shs (i, p)) \<and>
                     gt (move_score bm') (move_score bm) \<and>
                     (\<forall>q \<in> set pre. candScore b shs q < candScore b shs (i, p)) \<and>
                     (\<forall>q \<in> set post. candScore b shs q \<le> candScore b shs (i, p)))"
        by blast
      from alt have "((\<forall>q \<in> set (map (\<lambda>p. (i0, p)) ?V0 @ ?C).
                          \<not> gt (Num (candScore b shs q)) (move_score bm)) \<and>
                   bsh' = bsh \<and> bm' = bm) \<or>
                  (\<exists>pre i p post. map (\<lambda>p. (i0, p)) ?V0 @ ?C = pre @ (i, p) # post \<and>
                     bsh' = Some i \<and> bm' = bestOf p (candScore b shs (i, p)) \<and>
                     gt (move_score bm') (move_score bm) \<and>
                     (\<forall>q \<in> set pre. candScore b shs q < candScore b shs (i, p)) \<and>
                     (\<forall>q \<in> set post. candScore b shs q \<le> candScore b shs (i, p)))"
      proof
        assume a: "(\<forall>q \<in> set ?C. \<not> gt (Num (candScore b shs q)) (move_score bm)) \<and>
                   bsh' = bsh \<and> bm' = bm"
        have "\<forall>q \<in> set (map (\<lambda>p. (i0, p)) ?V0). \<not> gt (Num (candScore b shs q)) (move_score bm)"
          using all0 ngt not_gt_mono by blast
        then show ?thesis using a by auto
      next
        assume "\<exists>pre i p post. ?C = pre @ (i, p) # post \<and>
                     bsh' = Some i \<and> bm' = bestOf p (candScore b shs (i, p)) \<and>
                     gt (move_score bm') (move_score bm) \<and>
                     (\<forall>q \<in> set pre. candScore b shs q < candScore b shs (i, p)) \<and>
                     (\<forall>q \<in> set post. candScore b shs q \<le> candScore b shs (i, p))"
        then obtain pre i p post where
          d: "?C = pre @ (i, p) # post" "bsh' = Some i" "bm' = bestOf p (candScore b shs (i, p))"
             "gt (move_score bm') (move_score bm)"
             "\<forall>q \<in> set pre. candScore b shs q < candScore b shs (i, p)"
             "\<forall>q \<in> set post. candScore b shs q \<le> candScore b shs (i, p)"
          by blast
        have big: "?sc0 < candScore b shs (i, p)"
          using gt_Num_less [of "candScore b shs (i, p)" "move_score bm" ?sc0] d(3,4) ngt
          by (simp add: bestOf_def)
        have "map (\<lambda>p. (i0, p)) ?V0 @ ?C = (map (\<lambda>p. (i0, p)) ?V0 @ pre) @ (i, p) # post"
          using d(1) by simp
        moreover have "\<forall>q \<in> set (map (\<lambda>p. (i0, p)) ?V0 @ pre).
                         candScore b shs q < candScore b shs (i, p)"
        proof -
          have "candScore b shs q < candScore b shs (i, p)"
            if "q \<in> set (map (\<lambda>p. (i0, p)) ?V0)" for q
            using all0 big that le_less_trans by blast
          then show ?thesis using d(5) by (simp only: set_append) blast
        qed
        ultimately have "\<exists>pre i p post. map (\<lambda>p. (i0, p)) ?V0 @ ?C = pre @ (i, p) # post \<and>
                     bsh' = Some i \<and> bm' = bestOf p (candScore b shs (i, p)) \<and>
                     gt (move_score bm') (move_score bm) \<and>
                     (\<forall>q \<in> set pre. candScore b shs q < candScore b shs (i, p)) \<and>
                     (\<forall>q \<in> set post. candScore b shs q \<le> candScore b shs (i, p))"
          using d(2,3,4,6)
          by (intro exI [of _ "map (\<lambda>p. (i0, p)) ?V0 @ pre"] exI [of _ i] exI [of _ p]
                exI [of _ post]) simp
        then show ?thesis ..
      qed
      then show ?thesis unfolding step C using res by blast
    qed
  qed
qed

lemma enumerate_nth: "enumerate 0 xs = map (\<lambda>i. (i, xs ! i)) [0..<length xs]"
  by (rule nth_equalityI) (simp_all add: nth_enumerate_eq)

lemma selectMove_char:
  assumes b: "board_ok b" and shs: "list_all shape_ok shs"
  shows "(candidates b shs = [] \<and> selectMove b shs = Some None) \<or>
         (\<exists>pre i p post.
            candidates b shs = pre @ (i, p) # post \<and>
            selectMove b shs = Some (Some (i, bestOf p (candScore b shs (i, p)))) \<and>
            (\<forall>q \<in> set pre. candScore b shs q < candScore b shs (i, p)) \<and>
            (\<forall>q \<in> set post. candScore b shs q \<le> candScore b shs (i, p)))"
proof -
  let ?C = "candidates b shs"
  have "\<forall>i \<in> set [0..<length shs]. i < length shs" by simp
  from pickShape_char [OF b shs this, of None noMove]
  obtain bsh' bm' where
    res: "pickShape b (enumerate 0 shs) (None, noMove) = Some (bsh', bm')"
    and alt: "((\<forall>q \<in> set ?C. \<not> gt (Num (candScore b shs q)) (move_score noMove)) \<and>
               bsh' = None \<and> bm' = noMove) \<or>
              (\<exists>pre i p post. ?C = pre @ (i, p) # post \<and>
                 bsh' = Some i \<and> bm' = bestOf p (candScore b shs (i, p)) \<and>
                 gt (move_score bm') (move_score noMove) \<and>
                 (\<forall>q \<in> set pre. candScore b shs q < candScore b shs (i, p)) \<and>
                 (\<forall>q \<in> set post. candScore b shs q \<le> candScore b shs (i, p)))"
    unfolding enumerate_nth candidates_def by blast
  have sel: "selectMove b shs =
               Some (case bsh' of None \<Rightarrow> None
                     | Some i \<Rightarrow> if gt (move_score bm') NegInfinity then Some (i, bm') else None)"
    using res by (simp add: selectMove_def noMove_def)
  from alt show ?thesis
  proof
    assume a: "(\<forall>q \<in> set ?C. \<not> gt (Num (candScore b shs q)) (move_score noMove)) \<and>
               bsh' = None \<and> bm' = noMove"
    then have "?C = []" by (cases ?C) (auto simp: noMove_def)
    then show ?thesis using sel a by simp
  next
    assume "\<exists>pre i p post. ?C = pre @ (i, p) # post \<and>
                 bsh' = Some i \<and> bm' = bestOf p (candScore b shs (i, p)) \<and>
                 gt (move_score bm') (move_score noMove) \<and>
                 (\<forall>q \<in> set pre. candScore b shs q < candScore b shs (i, p)) \<and>
                 (\<forall>q \<in> set post. candScore b shs q \<le> candScore b shs (i, p))"
    then obtain pre i p post where
      d: "?C = pre @ (i, p) # post" "bsh' = Some i" "bm' = bestOf p (candScore b shs (i, p))"
         "\<forall>q \<in> set pre. candScore b shs q < candScore b shs (i, p)"
         "\<forall>q \<in> set post. candScore b shs q \<le> candScore b shs (i, p)"
      by blast
    have "selectMove b shs = Some (Some (i, bestOf p (candScore b shs (i, p))))"
      using sel d(2,3) by (simp add: bestOf_def)
    then show ?thesis using d(1,4,5) by blast
  qed
qed

lemma set_candidates:
  "set (candidates b shs)
     = {(i, p). i < length shs \<and> p \<in> set gridPositions \<and> validAt b (shs ! i) p}"
  by (auto simp: candidates_def candsOf_def)

lemma selectMove_valid:
  assumes b: "board_ok b" and shs: "list_all shape_ok shs"
    and sel: "selectMove b shs = Some (Some (i, mv))"
  shows "i < length shs \<and> canPlaceShape b (move_row mv) (move_col mv) (shs ! i) = Some True"
proof -
  from selectMove_char [OF b shs] sel
  obtain pre p post where d: "candidates b shs = pre @ (i, p) # post"
    and mv: "mv = bestOf p (candScore b shs (i, p))"
    by auto
  have "(i, p) \<in> set (candidates b shs)" using d by simp
  then have "i < length shs" "validAt b (shs ! i) p" by (auto simp: set_candidates)
  then show ?thesis using mv by (simp add: validAt_def bestOf_def)
qed

lemma selectMove_none:
  assumes b: "board_ok b" and shs: "list_all shape_ok shs"
    and nv: "hasValidMoves b shs = Some False"
  shows "selectMove b shs = Some None"
proof -
  from nv hasValidMoves_char [OF b shs]
  have no: "\<And>s row col. s \<in> set shs \<Longrightarrow> (row, col) \<in> set gridPositions \<Longrightarrow>
              canPlaceShape b (int row) (int col) s \<noteq> Some True"
    by auto
  have "set (candidates b shs) = {}"
    using no by (auto simp: set_candidates validAt_def)
  then have "candidates b shs = []" by simp
  then show ?thesis using selectMove_char [OF b shs] by auto
qed

lemma generateNewShapes_board:
  "generateNewShapes draws st = Some st' \<Longrightarrow> gameBoard st' = gameBoard st"
  by (auto simp: generateNewShapes_def Let_def gameOver_def split: if_splits bind_splits)

lemma candidates_scored:
  assumes b: "board_ok b" and shs: "list_all shape_ok shs"
    and q: "(i, row, col) \<in> set (candidates b shs)"
  shows "i < length shs \<and> row < GRID_SIZE \<and> col < GRID_SIZE \<and>
         canPlaceShape b (int row) (int col) (shs ! i) = Some True \<and>
         moveScore b (shs ! i) row col = Some (candScore b shs (i, row, col))"
proof -
  from q have i: "i < length shs" and g: "(row, col) \<in> set gridPositions"
    and v: "canPlaceShape b (int row) (int col) (shs ! i) = Some True"
    by (auto simp: set_candidates validAt_def)
  have s: "shape_ok (shs ! i)" using shs i by (simp add: list_all_length)
  from moveScore_total [OF b s v] obtain sc where "moveScore b (shs ! i) row col = Some sc"
    by blast
  then have "moveScore b (shs ! i) row col = Some (candScore b shs (i, row, col))"
    by (simp add: candScore_def scoreAt_def)
  then show ?thesis using i g v by (simp add: set_gridPositions)
qed

text \<open>
  C7. The search of \<open>executeMove\<close> returns nothing when there is no candidate, and otherwise
  the candidate whose score is strictly greater than the score of every candidate before it
  in scan order and at least the score of every candidate after it: the first candidate of
  greatest score. The candidates are the scanned positions at which \<open>canPlaceShape\<close> is
  true, each with the value of \<open>moveScore\<close>.
\<close>

theorem selectMove_first_maximum:
  assumes "board_ok b" and "list_all shape_ok shs"
  shows "(\<forall>(i, row, col) \<in> set (candidates b shs).
            i < length shs \<and> row < GRID_SIZE \<and> col < GRID_SIZE \<and>
            canPlaceShape b (int row) (int col) (shs ! i) = Some True \<and>
            moveScore b (shs ! i) row col = Some (candScore b shs (i, row, col))) \<and>
         (candidates b shs = [] \<longrightarrow> selectMove b shs = Some None) \<and>
         (candidates b shs \<noteq> [] \<longrightarrow>
            (\<exists>pre i row col post.
               candidates b shs = pre @ (i, row, col) # post \<and>
               selectMove b shs =
                 Some (Some (i, \<lparr> move_row = int row, move_col = int col,
                                  move_score = Num (candScore b shs (i, row, col)) \<rparr>)) \<and>
               (\<forall>q \<in> set pre. candScore b shs q < candScore b shs (i, row, col)) \<and>
               (\<forall>q \<in> set post. candScore b shs q \<le> candScore b shs (i, row, col))))"
proof -
  have sc: "(\<forall>(i, row, col) \<in> set (candidates b shs).
            i < length shs \<and> row < GRID_SIZE \<and> col < GRID_SIZE \<and>
            canPlaceShape b (int row) (int col) (shs ! i) = Some True \<and>
            moveScore b (shs ! i) row col = Some (candScore b shs (i, row, col)))"
    using candidates_scored [OF assms] by blast
  from selectMove_char [OF assms]
  have rest: "(candidates b shs = [] \<longrightarrow> selectMove b shs = Some None) \<and>
         (candidates b shs \<noteq> [] \<longrightarrow>
            (\<exists>pre i row col post.
               candidates b shs = pre @ (i, row, col) # post \<and>
               selectMove b shs =
                 Some (Some (i, \<lparr> move_row = int row, move_col = int col,
                                  move_score = Num (candScore b shs (i, row, col)) \<rparr>)) \<and>
               (\<forall>q \<in> set pre. candScore b shs q < candScore b shs (i, row, col)) \<and>
               (\<forall>q \<in> set post. candScore b shs q \<le> candScore b shs (i, row, col))))"
  proof
    assume "candidates b shs = [] \<and> selectMove b shs = Some None"
    then show ?thesis by simp
  next
    assume "\<exists>pre i p post.
            candidates b shs = pre @ (i, p) # post \<and>
            selectMove b shs = Some (Some (i, bestOf p (candScore b shs (i, p)))) \<and>
            (\<forall>q \<in> set pre. candScore b shs q < candScore b shs (i, p)) \<and>
            (\<forall>q \<in> set post. candScore b shs q \<le> candScore b shs (i, p))"
    then obtain pre i p post where
      d: "candidates b shs = pre @ (i, p) # post"
         "selectMove b shs = Some (Some (i, bestOf p (candScore b shs (i, p))))"
         "\<forall>q \<in> set pre. candScore b shs q < candScore b shs (i, p)"
         "\<forall>q \<in> set post. candScore b shs q \<le> candScore b shs (i, p)"
      by blast
    obtain row col where p: "p = (row, col)" by (cases p)
    have "\<exists>pre i row col post.
               candidates b shs = pre @ (i, row, col) # post \<and>
               selectMove b shs =
                 Some (Some (i, \<lparr> move_row = int row, move_col = int col,
                                  move_score = Num (candScore b shs (i, row, col)) \<rparr>)) \<and>
               (\<forall>q \<in> set pre. candScore b shs q < candScore b shs (i, row, col)) \<and>
               (\<forall>q \<in> set post. candScore b shs q \<le> candScore b shs (i, row, col))"
      using d unfolding p bestOf_def by (intro exI [of _ pre] exI [of _ i] exI [of _ row]
          exI [of _ col] exI [of _ post]) simp
    then show ?thesis using d(1) by simp
  qed
  from sc rest show ?thesis by (rule conjI)
qed

text \<open>
  C8. A move selected by the AI names a shape of the batch and a position at which
  \<open>canPlaceShape\<close> is true on the board that was searched; when \<open>hasValidMoves\<close> is false
  nothing is selected; and a turn of \<open>runAI\<close> changes the board only through
  \<open>onPlaceShape\<close> at the selected move.
\<close>

theorem ai_places_only_where_canPlaceShape:
  assumes "state_ok st"
  shows "(\<forall>i mv. selectMove (gameBoard st) (shapes st) = Some (Some (i, mv)) \<longrightarrow>
            i < length (shapes st) \<and>
            canPlaceShape (gameBoard st) (move_row mv) (move_col mv) (shapes st ! i) = Some True) \<and>
         (hasValidMoves (gameBoard st) (shapes st) = Some False \<longrightarrow>
            selectMove (gameBoard st) (shapes st) = Some None) \<and>
         (\<forall>draws st'. runAI draws st = Some st' \<longrightarrow>
            gameBoard st' = gameBoard st \<or>
            (\<exists>i mv. selectMove (gameBoard st) (shapes st) = Some (Some (i, mv)) \<and>
                    onPlaceShape draws st (move_row mv) (move_col mv) i = Some st'))"
proof -
  have b: "board_ok (gameBoard st)" and s: "list_all shape_ok (shapes st)"
    using assms by (auto simp: state_ok_def)
  have "gameBoard st' = gameBoard st \<or>
            (\<exists>i mv. selectMove (gameBoard st) (shapes st) = Some (Some (i, mv)) \<and>
                    onPlaceShape draws st (move_row mv) (move_col mv) i = Some st')"
    if "runAI draws st = Some st'" for draws st'
    using that generateNewShapes_board [of draws st st']
    by (auto simp: runAI_def split: if_splits bind_splits option.splits)
  then show ?thesis
    using selectMove_valid [OF b s] selectMove_none [OF b s] by blast
qed

section \<open>Lemmas on the batch and the invariant of the commands\<close>

lemma pickShape_index:
  "pickShape b es (bsh, bm) = Some (bsh', bm') \<Longrightarrow>
   bsh' = bsh \<or> (\<exists>i \<in> fst ` set es. bsh' = Some i)"
proof (induction es arbitrary: bsh bm)
  case Nil
  then show ?case by simp
next
  case (Cons e es)
  obtain i s where e: "e = (i, s)" by (cases e)
  from Cons.prems obtain mv where fb: "findBestMove b s = Some mv"
    by (auto simp: e split: bind_splits)
  have step: "pickShape b es (if gt (move_score mv) (move_score bm) then (Some i, mv) else (bsh, bm))
             = Some (bsh', bm')"
    using Cons.prems fb by (cases "gt (move_score mv) (move_score bm)") (simp_all add: e)
  show ?case
  proof (cases "gt (move_score mv) (move_score bm)")
    case True
    then show ?thesis using Cons.IH [of "Some i" mv] step by (auto simp: e)
  next
    case False
    then show ?thesis using Cons.IH [of bsh bm] step by (auto simp: e)
  qed
qed

lemma selectMove_index:
  "selectMove b shs = Some (Some (i, mv)) \<Longrightarrow> i < length shs"
proof -
  assume sel: "selectMove b shs = Some (Some (i, mv))"
  then obtain bsh' bm' where
    p: "pickShape b (enumerate 0 shs) (None, \<lparr> move_row = -1, move_col = -1,
          move_score = NegInfinity \<rparr>) = Some (bsh', bm')"
    and r: "(case bsh' of None \<Rightarrow> None
             | Some i \<Rightarrow> if gt (move_score bm') NegInfinity then Some (i, bm') else None)
            = Some (i, mv)"
    by (auto simp: selectMove_def split: bind_splits)
  from r have "bsh' = Some i" by (auto split: option.splits if_splits)
  with pickShape_index [OF p] have "i \<in> fst ` set (enumerate 0 shs)" by auto
  then show ?thesis by (auto simp: in_set_enumerate_eq)
qed

lemma colour_inv_runAI:
  assumes "colour_inv st" and "runAI draws st = Some st'"
  shows "colour_inv st'"
proof (cases "\<not> isAIEnabled st \<or> isGameOver st \<or> currentState st \<noteq> PLAYING")
  case True
  then show ?thesis using assms by (auto simp: runAI_def)
next
  case False
  from assms(2) False obtain sel where sel: "selectMove (gameBoard st) (shapes st) = Some sel"
    by (auto simp: runAI_def split: bind_splits)
  show ?thesis
  proof (cases sel)
    case None
    then have "generateNewShapes draws st = Some st'"
      using assms(2) False sel by (auto simp: runAI_def)
    then show ?thesis using assms(1) colour_inv_generateNewShapes by blast
  next
    case (Some a)
    obtain i mv where a: "a = (i, mv)" by (cases a)
    have i: "i < length (shapes st)" using sel Some a selectMove_index by blast
    have "onPlaceShape draws st (move_row mv) (move_col mv) i = Some st'"
      using assms(2) False sel Some a by (auto simp: runAI_def)
    then show ?thesis using assms(1) i colour_inv_onPlaceShape by blast
  qed
qed

lemma colour_inv_initialState: "colour_inv initialState"
  by (simp add: colour_inv_def initialState_def cell_inv_def)

text \<open>
  C9. Every operation that changes the board keeps the cell invariant (a block is empty iff its
  colour is 0): the constructor and the new board of \<open>startGame\<close>, \<open>clearBlock\<close> and the end of
  a clear animation, \<open>resetGame\<close>, and the placements by \<open>placeShape\<close>, \<open>onDragEnd\<close> and
  \<open>runAI\<close>, whose shapes carry a colour of the palette, which has no 0.
\<close>

theorem board_mutations_keep_cell_invariant:
  assumes "colour_inv st"
  shows "colour_inv initialState \<and>
         cell_inv createEmptyBoard \<and>
         (\<forall>p. cell_inv (clearBlock (gameBoard st) p)) \<and>
         (\<forall>s row col st'. shape_color s \<in> set BLOCK_COLORS \<and>
              placeShape st row col s = Some st' \<longrightarrow> colour_inv st') \<and>
         (\<forall>draws st'. generateNewShapes draws st = Some st' \<longrightarrow> colour_inv st') \<and>
         (\<forall>draws st'. startGame draws st = Some st' \<longrightarrow> colour_inv st') \<and>
         colour_inv (resetGame st) \<and>
         (\<forall>draws i row col st'. onDragEnd draws st i row col = Some st' \<longrightarrow> colour_inv st') \<and>
         (\<forall>draws st'. runAI draws st = Some st' \<longrightarrow> colour_inv st') \<and>
         (\<forall>st'. completeClear st = Some st' \<longrightarrow> colour_inv st')"
proof -
  have "cell_inv (gameBoard st)" using assms by (simp add: colour_inv_def)
  then have c3: "\<forall>p. cell_inv (clearBlock (gameBoard st) p)" by (simp add: cell_inv_clearBlock)
  have c4: "\<forall>s row col st'. shape_color s \<in> set BLOCK_COLORS \<and>
              placeShape st row col s = Some st' \<longrightarrow> colour_inv st'"
    using colour_inv_placeShape [OF assms] by blast
  have c5: "\<forall>draws st'. generateNewShapes draws st = Some st' \<longrightarrow> colour_inv st'"
    using colour_inv_generateNewShapes [OF assms] by blast
  have c6: "\<forall>draws st'. startGame draws st = Some st' \<longrightarrow> colour_inv st'"
    using colour_inv_startGame [OF assms] by blast
  have c7: "colour_inv (resetGame st)" using assms by (rule colour_inv_resetGame)
  have c8: "\<forall>draws i row col st'. onDragEnd draws st i row col = Some st' \<longrightarrow> colour_inv st'"
    using colour_inv_onDragEnd [OF assms] by blast
  have c9: "\<forall>draws st'. runAI draws st = Some st' \<longrightarrow> colour_inv st'"
    using colour_inv_runAI [OF assms] by blast
  have c10: "\<forall>st'. completeClear st = Some st' \<longrightarrow> colour_inv st'"
    using colour_inv_completeClear [OF assms] by blast
  from colour_inv_initialState cell_inv_createEmptyBoard c3 c4 c5 c6 c7 c8 c9 c10
  show ?thesis by (intro conjI)
qed

lemma those_map_length: "those (map f xs) = Some ys \<Longrightarrow> length ys = length xs"
proof (induction xs arbitrary: ys)
  case Nil
  then show ?case by simp
next
  case (Cons x xs)
  then show ?case by (auto split: option.splits)
qed

lemma generateNewShapes_batch:
  assumes "generateNewShapes draws st = Some st'"
  shows "shapes st' = shapes st \<or> (shapes st = [] \<and> length (shapes st') = 3)"
proof (cases "isGameOver st \<or> length (shapes st) > 0")
  case True
  then show ?thesis using assms by (auto simp: generateNewShapes_def split: if_splits)
next
  case False
  from assms False obtain new where
    new: "those (map (\<lambda>i. makeShape (draws i)) [0..<3]) = Some new"
    and st': "st' = st\<lparr> shapes := shapes st @ new \<rparr> \<or> st' = gameOver (st\<lparr> shapes := shapes st @ new \<rparr>)"
    by (auto simp: generateNewShapes_def Let_def split: bind_splits if_splits)
  have "length new = 3" using those_map_length [OF new] by simp
  then show ?thesis using st' False by (auto simp: gameOver_def)
qed

lemma generateNewShapes_nonempty:
  "shapes st \<noteq> [] \<Longrightarrow> generateNewShapes draws st = Some st"
  by (simp add: generateNewShapes_def)

lemma placeShape_shapes:
  "placeShape st row col s = Some st' \<Longrightarrow> shapes st' = shapes st"
  using checkLines_board by (fastforce simp: placeShape_def split: bind_splits)

lemma onDragEnd_batch:
  assumes "onDragEnd draws st i row col = Some st'"
  shows "shapes st' = shapes st \<or> shapes st' = removeAt i (shapes st) \<or>
         (removeAt i (shapes st) = [] \<and> length (shapes st') = 3)"
proof (cases "i \<ge> length (shapes st) \<or> isGameOver st")
  case True
  then show ?thesis using assms by (auto simp: onDragEnd_def)
next
  case False
  from assms False obtain ok where ok: "canPlaceShape (gameBoard st) row col (shapes st ! i) = Some ok"
    by (auto simp: onDragEnd_def split: bind_splits)
  show ?thesis
  proof (cases ok)
    case False
    then show ?thesis using assms ok \<open>\<not> (i \<ge> length (shapes st) \<or> isGameOver st)\<close>
      by (auto simp: onDragEnd_def)
  next
    case True
    from assms ok True \<open>\<not> (i \<ge> length (shapes st) \<or> isGameOver st)\<close>
    obtain st1 st3 where st1: "placeShape st row col (shapes st ! i) = Some st1"
      and st3: "checkLines (st1\<lparr> shapes := removeAt i (shapes st1) \<rparr>) = Some st3"
      and fin: "(if length (shapes st3) = 0 then generateNewShapes draws st3 else Some st3) = Some st'"
      by (auto simp: onDragEnd_def Let_def split: bind_splits)
    have s3: "shapes st3 = removeAt i (shapes st)"
      using checkLines_board [OF st3] placeShape_shapes [OF st1] by simp
    show ?thesis
    proof (cases "shapes st3 = []")
      case True
      then show ?thesis using fin generateNewShapes_batch [of draws st3 st'] s3 by auto
    next
      case False
      then show ?thesis using fin s3 by auto
    qed
  qed
qed

lemma onPlaceShape_batch:
  assumes "onPlaceShape draws st row col i = Some st'" and "i < length (shapes st)"
  shows "shapes st' = removeAt i (shapes st) \<or>
         (removeAt i (shapes st) = [] \<and> length (shapes st') = 3)"
proof -
  from assms(1)
  obtain st1 st2 where st1: "placeShape st row col (shapes st ! i) = Some st1"
    and st2: "checkLines st1 = Some st2"
    and fin: "(let st3 = (if i < length (shapes st2)
                     then st2\<lparr> shapes := removeAt i (shapes st2) \<rparr> else st2)
               in if length (shapes st3) = 0 then generateNewShapes draws st3 else Some st3) = Some st'"
    by (auto simp: onPlaceShape_def split: bind_splits)
  have s2: "shapes st2 = shapes st"
    using checkLines_board [OF st2] placeShape_shapes [OF st1] by simp
  define st3 where "st3 = (if i < length (shapes st2)
                     then st2\<lparr> shapes := removeAt i (shapes st2) \<rparr> else st2)"
  have s3: "shapes st3 = removeAt i (shapes st)" using assms(2) by (simp add: st3_def s2)
  from fin have fin': "(if length (shapes st3) = 0 then generateNewShapes draws st3 else Some st3) = Some st'"
    unfolding Let_def st3_def [symmetric] .
  show ?thesis
  proof (cases "shapes st3 = []")
    case True
    then show ?thesis using fin' generateNewShapes_batch [of draws st3 st'] s3 by auto
  next
    case False
    then show ?thesis using fin' s3 by auto
  qed
qed

lemma runAI_batch:
  assumes "runAI draws st = Some st'"
  shows "shapes st' = shapes st \<or>
         (\<exists>i < length (shapes st).
            shapes st' = removeAt i (shapes st) \<or>
            (removeAt i (shapes st) = [] \<and> length (shapes st') = 3)) \<or>
         (shapes st = [] \<and> length (shapes st') = 3)"
proof (cases "\<not> isAIEnabled st \<or> isGameOver st \<or> currentState st \<noteq> PLAYING")
  case True
  then show ?thesis using assms by (auto simp: runAI_def)
next
  case False
  from assms False obtain sel where sel: "selectMove (gameBoard st) (shapes st) = Some sel"
    by (auto simp: runAI_def split: bind_splits)
  show ?thesis
  proof (cases sel)
    case None
    then have "generateNewShapes draws st = Some st'"
      using assms False sel by (auto simp: runAI_def)
    then show ?thesis using generateNewShapes_batch by blast
  next
    case (Some a)
    obtain i mv where a: "a = (i, mv)" by (cases a)
    have i: "i < length (shapes st)" using sel Some a selectMove_index by blast
    have "onPlaceShape draws st (move_row mv) (move_col mv) i = Some st'"
      using assms False sel Some a by (auto simp: runAI_def)
    from onPlaceShape_batch [OF this i] i show ?thesis by blast
  qed
qed

text \<open>
  In the copy that uses GameAI, \<open>generateNewShapes\<close> does nothing while the batch holds a
  shape, and a batch it makes has exactly three shapes; so after a drag or an AI turn of
  that copy the batch is the old one, or the old one without the placed shape, or, only when
  that removal emptied it, three new shapes.
\<close>

theorem new_batch_only_when_batch_empty:
  "(shapes st \<noteq> [] \<longrightarrow> generateNewShapes draws st = Some st) \<and>
   (\<forall>st'. generateNewShapes draws st = Some st' \<longrightarrow>
      shapes st' = shapes st \<or> (shapes st = [] \<and> length (shapes st') = 3)) \<and>
   (\<forall>i row col st'. onDragEnd draws st i row col = Some st' \<longrightarrow>
      shapes st' = shapes st \<or> shapes st' = removeAt i (shapes st) \<or>
      (removeAt i (shapes st) = [] \<and> length (shapes st') = 3)) \<and>
   (\<forall>st'. runAI draws st = Some st' \<longrightarrow>
      shapes st' = shapes st \<or>
      (\<exists>i < length (shapes st).
         shapes st' = removeAt i (shapes st) \<or>
         (removeAt i (shapes st) = [] \<and> length (shapes st') = 3)) \<or>
      (shapes st = [] \<and> length (shapes st') = 3))"
  using generateNewShapes_nonempty [of st draws] generateNewShapes_batch [of draws st]
    onDragEnd_batch [of draws st] runAI_batch [of draws st]
  by blast

text \<open>
  A drag that places a shape runs \<open>checkLines\<close> twice on the board that \<open>placeShape\<close> has
  filled, so it adds twice the value of the completed lines to the score and starts two
  clears of them.
\<close>

lemma checkLines_score:
  assumes "checkLines st = Some st'"
    and "rowsToRemove (gameBoard st) = Some rows" and "colsToRemove (gameBoard st) = Some cols"
  shows "score st' = score st + (int (length rows) + int (length cols)) * 100 \<and>
         pendingClears st' =
           (if rows \<noteq> [] \<or> cols \<noteq> [] then pendingClears st @ [blocksToRemove rows cols]
            else pendingClears st)"
  using assms
  by (auto simp: checkLines_def Let_def gameOver_def updateScore_def clearLines_def
           split: bind_splits if_splits)

lemma generateNewShapes_score:
  "generateNewShapes draws st = Some st' \<Longrightarrow>
   score st' = score st \<and> pendingClears st' = pendingClears st"
  by (auto simp: generateNewShapes_def Let_def gameOver_def split: if_splits bind_splits)

lemma onDragEnd_counts_twice:
  assumes i: "i < length (shapes st)" and g: "\<not> isGameOver st"
    and can: "canPlaceShape (gameBoard st) row col (shapes st ! i) = Some True"
    and fill: "fillCells (gameBoard st) row col (shape_color (shapes st ! i))
                 (shapeCells (blocks (shapes st ! i))) = Some b'"
    and rows: "rowsToRemove b' = Some rows" and cols: "colsToRemove b' = Some cols"
    and run: "onDragEnd draws st i row col = Some st'"
  shows "score st' = score st + 2 * ((int (length rows) + int (length cols)) * 100) \<and>
         pendingClears st' =
           (if rows \<noteq> [] \<or> cols \<noteq> []
            then pendingClears st @ [blocksToRemove rows cols, blocksToRemove rows cols]
            else pendingClears st)"
proof -
  from run i g can fill obtain st1 st3 where
    st1: "checkLines (st\<lparr> gameBoard := b' \<rparr>) = Some st1"
    and st3: "checkLines (st1\<lparr> shapes := removeAt i (shapes st1) \<rparr>) = Some st3"
    and st': "(if length (shapes st3) = 0 then generateNewShapes draws st3 else Some st3) = Some st'"
    by (auto simp: onDragEnd_def placeShape_def Let_def split: bind_splits)
  have b1: "gameBoard st1 = b'" using checkLines_board [OF st1] by simp
  from checkLines_score [OF st1] rows cols
  have s1: "score st1 = score st + (int (length rows) + int (length cols)) * 100"
    "pendingClears st1 =
           (if rows \<noteq> [] \<or> cols \<noteq> [] then pendingClears st @ [blocksToRemove rows cols]
            else pendingClears st)"
    by simp_all
  from checkLines_score [OF st3] rows cols b1
  have s3: "score st3 = score st1 + (int (length rows) + int (length cols)) * 100"
    "pendingClears st3 =
           (if rows \<noteq> [] \<or> cols \<noteq> [] then pendingClears st1 @ [blocksToRemove rows cols]
            else pendingClears st1)"
    by simp_all
  have "score st' = score st3 \<and> pendingClears st' = pendingClears st3"
    using st' generateNewShapes_score [of draws st3 st'] by (auto split: if_splits)
  then show ?thesis using s1 s3 by auto
qed

text \<open>
  In the older copy \<open>generateNewShapes\<close> makes a batch of three shapes whatever the batch
  held before, and \<open>runAI\<close> calls it whenever the search finds no move.
\<close>

lemma generateNewShapes_old_batch:
  assumes "\<not> isGameOver st" and "generateNewShapes_old draws st = Some st'"
  shows "length (shapes st') = 3 \<and> placedShapesCount st' = 0 \<and> gameBoard st' = gameBoard st"
proof -
  from assms obtain new where
    new: "those (map (\<lambda>i. makeShape (draws i)) [0..<3]) = Some new"
    and st': "st' = st\<lparr> shapes := new, placedShapesCount := 0 \<rparr> \<or>
              st' = gameOver_old (st\<lparr> shapes := new, placedShapesCount := 0 \<rparr>)"
    by (auto simp: generateNewShapes_old_def Let_def split: bind_splits if_splits)
  have "length new = 3" using those_map_length [OF new] by simp
  then show ?thesis using st' by (auto simp: gameOver_old_def)
qed

lemma runAI_old_regenerates_without_move:
  assumes "isAIEnabled st" and "\<not> isGameOver st"
    and "selectMove (gameBoard st) (shapes st) = Some None"
    and "runAI_old draws st = Some st'"
  shows "length (shapes st') = 3 \<and> placedShapesCount st' = 0 \<and> gameBoard st' = gameBoard st"
proof -
  have "generateNewShapes_old draws st = Some st'"
    using assms by (simp add: runAI_old_def)
  from generateNewShapes_old_batch [OF assms(2) this] show ?thesis .
qed

section \<open>Examples\<close>

theorem board_mutations_keep_cell_invariant_witness:
  "colour_inv (playing createEmptyBoard [dominoShape]) \<and>
   (case onDragEnd noDraws (playing createEmptyBoard [dominoShape]) 0 0 6 of
      None \<Rightarrow> False | Some st' \<Rightarrow> colour_inv st' \<and> filledCount (gameBoard st') = 2)"
proof -
  have ok: "colour_inv (playing createEmptyBoard [dominoShape])" by code_simp
  have "onDragEnd noDraws (playing createEmptyBoard [dominoShape]) 0 0 6 \<noteq> None" by code_simp
  then obtain st' where
    st': "onDragEnd noDraws (playing createEmptyBoard [dominoShape]) 0 0 6 = Some st'"
    by blast
  have n: "map_option (\<lambda>st. filledCount (gameBoard st))
             (onDragEnd noDraws (playing createEmptyBoard [dominoShape]) 0 0 6) = Some 2"
    by code_simp
  from board_mutations_keep_cell_invariant [OF ok] st' have "colour_inv st'" by blast
  then show ?thesis using ok st' n by simp
qed

theorem new_batch_only_when_batch_empty_witness:
  "generateNewShapes noDraws (playing stuckBoard [barShape]) = Some (playing stuckBoard [barShape]) \<and>
   map_option (\<lambda>st. length (shapes st)) (generateNewShapes noDraws (playing createEmptyBoard []))
     = Some 3"
proof -
  have ne: "shapes (playing stuckBoard [barShape]) \<noteq> []" by (simp add: playing_def)
  have n: "map_option (\<lambda>st. length (shapes st))
             (generateNewShapes noDraws (playing createEmptyBoard [])) = Some 3"
    by code_simp
  from new_batch_only_when_batch_empty [of "playing stuckBoard [barShape]" noDraws] ne
  have "generateNewShapes noDraws (playing stuckBoard [barShape])
          = Some (playing stuckBoard [barShape])"
    by blast
  then show ?thesis using n by simp
qed

theorem selectMove_first_maximum_witness:
  "board_ok createEmptyBoard \<and> list_all shape_ok [unitShape, unitShape] \<and>
   selectMove createEmptyBoard [unitShape, unitShape]
     = Some (Some (0, \<lparr> move_row = 1, move_col = 7, move_score = Num 60 \<rparr>)) \<and>
   candScore createEmptyBoard [unitShape, unitShape] (1, 1, 7) = 60 \<and>
   (\<exists>pre post. candidates createEmptyBoard [unitShape, unitShape] = pre @ (0, 1, 7) # post \<and>
      (\<forall>q \<in> set pre. candScore createEmptyBoard [unitShape, unitShape] q < 60) \<and>
      (\<forall>q \<in> set post. candScore createEmptyBoard [unitShape, unitShape] q \<le> 60))"
proof -
  let ?b = createEmptyBoard and ?shs = "[unitShape, unitShape]"
  have b: "board_ok ?b" by (rule board_ok_createEmptyBoard)
  have s: "list_all shape_ok ?shs" by code_simp
  have sel: "selectMove ?b ?shs
               = Some (Some (0, \<lparr> move_row = 1, move_col = 7, move_score = Num 60 \<rparr>))"
    by code_simp
  have tie: "candScore ?b ?shs (1, 1, 7) = 60" by code_simp
  have ne: "candidates ?b ?shs \<noteq> []" by code_simp
  from selectMove_first_maximum [OF b s] ne
  obtain pre i row col post where
    d: "candidates ?b ?shs = pre @ (i, row, col) # post"
       "selectMove ?b ?shs =
          Some (Some (i, \<lparr> move_row = int row, move_col = int col,
                           move_score = Num (candScore ?b ?shs (i, row, col)) \<rparr>))"
       "\<forall>q \<in> set pre. candScore ?b ?shs q < candScore ?b ?shs (i, row, col)"
       "\<forall>q \<in> set post. candScore ?b ?shs q \<le> candScore ?b ?shs (i, row, col)"
    by blast
  from d(2) sel have "i = 0" "row = 1" "col = 7" "candScore ?b ?shs (i, row, col) = 60"
    by auto
  with d(1,3,4) have "\<exists>pre post. candidates ?b ?shs = pre @ (0, 1, 7) # post \<and>
      (\<forall>q \<in> set pre. candScore ?b ?shs q < 60) \<and>
      (\<forall>q \<in> set post. candScore ?b ?shs q \<le> 60)"
    by auto
  then show ?thesis using b s sel tie by simp
qed

theorem ai_places_only_where_canPlaceShape_witness:
  "state_ok (playing stuckBoard [barShape, barShape]) \<and>
   hasValidMoves stuckBoard [barShape, barShape] = Some False \<and>
   selectMove stuckBoard [barShape, barShape] = Some None \<and>
   state_ok (playing createEmptyBoard [unitShape]) \<and>
   selectMove createEmptyBoard [unitShape]
     = Some (Some (0, \<lparr> move_row = 1, move_col = 7, move_score = Num 60 \<rparr>)) \<and>
   canPlaceShape createEmptyBoard 1 7 unitShape = Some True"
proof -
  have ok1: "state_ok (playing stuckBoard [barShape, barShape])" by code_simp
  have nv: "hasValidMoves stuckBoard [barShape, barShape] = Some False" by code_simp
  have ok2: "state_ok (playing createEmptyBoard [unitShape])" by code_simp
  have sel: "selectMove createEmptyBoard [unitShape]
     = Some (Some (0, \<lparr> move_row = 1, move_col = 7, move_score = Num 60 \<rparr>))"
    by code_simp
  from ai_places_only_where_canPlaceShape [OF ok1] nv
  have a: "selectMove stuckBoard [barShape, barShape] = Some None"
    by (simp add: playing_def)
  from ai_places_only_where_canPlaceShape [OF ok2] sel
  have c: "canPlaceShape createEmptyBoard 1 7 unitShape = Some True"
    by (simp add: playing_def)
  show ?thesis using ok1 nv a ok2 sel c by simp
qed

text \<open>
  C4. The game should be over as soon as no shape of a non-empty batch can be placed.
  \<open>checkLines\<close> tests this only when the batch holds exactly one shape: after the unit
  shape is dropped at (7, 7) two vertical bars remain, neither fits anywhere, and the state
  stays in play (\<open>isGameOver\<close> false, phase PLAYING); a further \<open>checkLines\<close> and an AI turn
  leave it so.
\<close>

theorem checkLines_misses_stuck_batch:
  "(case onDragEnd noDraws (playing preStuckBoard [unitShape, barShape, barShape]) 0 7 7 of
      None \<Rightarrow> False
    | Some st' \<Rightarrow>
        shapes st' = [barShape, barShape] \<and>
        hasValidMoves (gameBoard st') (shapes st') = Some False \<and>
        \<not> isGameOver st' \<and> currentState st' = PLAYING \<and> pendingClears st' = [] \<and>
        checkLines st' = Some st' \<and>
        runAI noDraws (st'\<lparr> isAIEnabled := True \<rparr>) = Some (st'\<lparr> isAIEnabled := True \<rparr>))"
  by code_simp

theorem checkLines_misses_stuck_batch_witness:
  "map_option (\<lambda>st'. (isGameOver st', currentState st'))
     (onDragEnd noDraws (playing preStuckBoard [unitShape, barShape, barShape]) 0 7 7)
   = Some (False, PLAYING)"
  using checkLines_misses_stuck_batch by (simp split: option.splits)

text \<open>
  C1. After a commit the score should grow by (rows + columns) * 100 and the completed lines
  should be cleared once. \<open>placeShape\<close> calls \<open>checkLines\<close>, and \<open>onDragEnd\<close> and the callback
  of \<open>runAI\<close> call \<open>checkLines\<close> again before the clear that the first call started has
  completed, so a commit counts every completed line twice and starts two clears. The unit
  shape dropped at (3, 7) completes row 3: \<open>placeShape\<close> alone adds 100, the drag adds 200
  and leaves two pending clears of row 3; the completion of the first empties the row and
  the completion of the second clears the emptied blocks again. The drop that completes
  row 3 and column 7 together adds 400. The AI callback and the older copy of Game.ts count
  twice in the same way.
\<close>

theorem commit_counts_full_lines_twice:
  "map_option score (placeShape (playing rowBoard [unitShape, unitShape]) 3 7 unitShape)
     = Some 100 \<and>
   (case onDragEnd noDraws (playing rowBoard [unitShape, unitShape]) 0 3 7 of
      None \<Rightarrow> False
    | Some st1 \<Rightarrow>
        score st1 = 200 \<and>
        pendingClears st1 = [blocksToRemove [3] [], blocksToRemove [3] []] \<and>
        filledCount (gameBoard st1) = 8 \<and>
        (case completeClear st1 of
           None \<Rightarrow> False
         | Some st2 \<Rightarrow>
             filledCount (gameBoard st2) = 0 \<and> pendingClears st2 = [blocksToRemove [3] []] \<and>
             (case completeClear st2 of
                None \<Rightarrow> False
              | Some st3 \<Rightarrow>
                  filledCount (gameBoard st3) = 0 \<and> pendingClears st3 = [] \<and>
                  score st3 = 200))) \<and>
   map_option score (onDragEnd noDraws (playing crossGapBoard [unitShape, unitShape]) 0 3 7)
     = Some 400 \<and>
   map_option score (onPlaceShape noDraws (playing rowBoard [unitShape, unitShape]) 3 7 0)
     = Some 200 \<and>
   map_option score (onDragEnd_old noDraws (oldPlaying rowBoard [unitShape, unitShape] 1) 0 3 7)
     = Some 200 \<and>
   map_option score
     (onDragEnd_old noDraws (oldPlaying crossGapBoard [unitShape, unitShape] 1) 0 3 7)
     = Some 400"
  by code_simp

theorem commit_counts_full_lines_twice_witness:
  "map_option score (onDragEnd noDraws (playing rowBoard [unitShape, unitShape]) 0 3 7)
     = Some 200"
  using commit_counts_full_lines_twice by (simp split: option.splits)



end
